theory Spec2Isabelle
  imports Main "HOL-Library.Word"
begin

unbundle bit_operations_syntax

section \<open>subprocess.hpp: descriptors, processes and command pipelines\<close>

text \<open>
  A shallow embedding of \<^verbatim>\<open>include/subprocess/subprocess.hpp\<close>. Descriptor objects
  live in an explicit heap (they are shared through \<^verbatim>\<open>std::shared_ptr\<close> and linked
  through raw pointers), the operating system is an explicit part of the state, and every
  \<^verbatim>\<open>throw\<close> is a value of a sum type. Member names lose their trailing underscore
  (\<^verbatim>\<open>fd_\<close> is \<open>fd\<close>).
\<close>

subsection \<open>Exceptions\<close>

text \<open>
  The exception classes of namespace \<^verbatim>\<open>exceptions\<close>, with the message parts and the
  error code they are constructed from. \<open>undefined_behaviour\<close> is not an exception: it
  marks the places where the C++ dereferences a null pointer (or calls \<^verbatim>\<open>front()\<close>
  on an empty list), after which nothing is guaranteed.
\<close>

datatype error =
    usage_error string
  | os_error "string list" int
  | command_error "string list" int
  | undefined_behaviour

subsection \<open>Platform constants\<close>

text \<open>
  Modelled from the spec: the flag macros of \<^verbatim>\<open>fcntl.h\<close> are not part of the
  repository. The spec speaks of read-only, write-only, create, truncate and append; the
  numbers are the ones of Linux. \<open>O_ACCMODE\<close> masks the access direction.
\<close>

definition O_RDONLY :: "32 word" where "O_RDONLY = 0"
definition O_WRONLY :: "32 word" where "O_WRONLY = 1"
definition O_ACCMODE :: "32 word" where "O_ACCMODE = 3"
definition O_CREAT :: "32 word" where "O_CREAT = 64"
definition O_TRUNC :: "32 word" where "O_TRUNC = 512"
definition O_APPEND :: "32 word" where "O_APPEND = 1024"

text \<open>The error numbers of \<^verbatim>\<open>errno.h\<close> that the system calls below report, as on Linux.\<close>

definition ENOENT :: int where "ENOENT = 2"
definition ECHILD :: int where "ECHILD = 10"
definition EMFILE :: int where "EMFILE = 24"

text \<open>
  Modelled from the spec: the macro \<^verbatim>\<open>WEXITSTATUS\<close> of \<^verbatim>\<open>sys/wait.h\<close>, which
  extracts the exit status from a wait status (bits 8 to 15).
\<close>

definition WEXITSTATUS :: "int \<Rightarrow> int" where
  "WEXITSTATUS waitstatus = (waitstatus div 256) mod 256"

text \<open>\<^verbatim>\<open>enum class standard_filenos\<close>.\<close>

definition standard_in :: int where "standard_in = 0"
definition standard_out :: int where "standard_out = 1"
definition standard_error :: int where "standard_error = 2"

subsection \<open>Descriptor objects\<close>

type_synonym addr = nat

text \<open>
  The dynamic type of a descriptor object decides which override a virtual call reaches.
  \<open>Descriptor\<close> is the base class itself (the standard streams are such objects).
\<close>

datatype dyn_type =
    Descriptor
  | Ifile_descriptor
  | Ofile_descriptor
  | Ipipe_descriptor
  | Opipe_descriptor
  | Ivariable_descriptor
  | Ovariable_descriptor

text \<open>
  One record holds the data members of the whole hierarchy; a class uses the members it
  declares or inherits. \<open>linked_fd\<close> is the raw partner pointer of a pipe end
  (\<open>None\<close> is \<^verbatim>\<open>nullptr\<close>). \<open>member_pipe\<close> is the address of the pipe end a buffer
  descriptor holds as a data member (\<^verbatim>\<open>input_pipe_\<close>, \<^verbatim>\<open>output_pipe_\<close>).
  \<open>output_var\<close> (member \<^verbatim>\<open>output_\<close>) is the reference to the caller's string: an index into \<open>vars\<close>.
\<close>

record descriptor =
  dtype :: dyn_type
  fd :: int
  path :: string
  mode :: "32 word"
  linked_fd :: "addr option"
  member_pipe :: addr
  input_data :: string
  output_var :: nat

subsection \<open>The operating system\<close>

text \<open>
  The library calls open, pipe, read, write, close, wordexp, posix\_spawnp and waitpid.
  They are the environment of the program: each is a function on the state that does what
  POSIX says of the call, as far as the library can observe it, and records the call.
\<close>

datatype resource =
    File string "32 word"
  | Pipe_read nat
  | Pipe_write nat

datatype file_action =
    Adddup2 int int
  | Addclose int

datatype read_result = Read_data string | Read_fail int

datatype write_result = Write_accept nat | Write_fail int

datatype syscall =
    Sys_open string "32 word" int
  | Sys_pipe "(int \<times> int) option"
  | Sys_write int int
  | Sys_read int int
  | Sys_close int
  | Sys_posix_spawnp "string list" "file_action list" int int
  | Sys_waitpid int "int option"

text \<open>
  The state of the program and of its environment.
  \<^item> \<open>heap\<close>: the descriptor objects, an address is an index;
  \<^item> \<open>vars\<close>: the caller's strings that output buffers are bound to;
  \<^item> \<open>fdtab\<close>: the open file descriptors of the parent process, \<open>fd_limit\<close> the first
    number it may not use, \<open>files\<close> the paths that exist, \<open>pipes\<close> the number of
    pipes created so far;
  \<^item> \<open>read_results\<close>, \<open>write_results\<close>: what the next calls of read(2) and write(2)
    return (end of file, respectively everything accepted, once the list is used up:
    the child ends after finitely many reads, and the two loops below end);
  \<^item> \<open>children\<close>: wait status and reaped flag of every child spawned, child number
    \<open>i\<close> has pid \<open>i + 1\<close>;
  \<^item> \<open>wordexp_results\<close>: return code of wordexp(3) and the \<^verbatim>\<open>we_wordv\<close> it leaves
    (\<open>None\<close> is a null pointer);
  \<^item> \<open>spawn_results\<close>: for a binary, the error code of posix\_spawnp and the wait status
    the child ends with;
  \<^item> \<open>trace\<close>: the system calls made, in order.
\<close>

record world =
  heap :: "descriptor list"
  vars :: "string list"
  fdtab :: "(int \<times> resource) list"
  fd_limit :: int
  files :: "string list"
  pipes :: nat
  read_results :: "read_result list"
  write_results :: "write_result list"
  children :: "(int \<times> bool) list"
  wordexp_results :: "string \<Rightarrow> int \<times> string list option"
  spawn_results :: "string \<Rightarrow> int \<times> int"
  errno :: int
  trace :: "syscall list"

text \<open>POSIX hands out the lowest file descriptor number that is not in use.\<close>

fun lowest_from :: "nat \<Rightarrow> int \<Rightarrow> int list \<Rightarrow> int" where
  "lowest_from 0 k used = k"
| "lowest_from (Suc n) k used = (if k \<in> set used then lowest_from n (k + 1) used else k)"

definition lowest_free :: "int list \<Rightarrow> int" where
  "lowest_free used = lowest_from (length used) 0 used"

definition sys_open :: "world \<Rightarrow> string \<Rightarrow> 32 word \<Rightarrow> world \<times> int" where
  "sys_open s p m =
     (let n = lowest_free (map fst (fdtab s)) in
      if p \<notin> set (files s) \<and> m AND O_CREAT = 0 then
        (s\<lparr>errno := ENOENT, trace := trace s @ [Sys_open p m (- 1)]\<rparr>, - 1)
      else if fd_limit s \<le> n then
        (s\<lparr>errno := EMFILE, trace := trace s @ [Sys_open p m (- 1)]\<rparr>, - 1)
      else
        (s\<lparr>fdtab := fdtab s @ [(n, File p m)],
           files := (if p \<in> set (files s) then files s else files s @ [p]),
           trace := trace s @ [Sys_open p m n]\<rparr>, n))"

definition sys_pipe :: "world \<Rightarrow> world \<times> (int \<times> int) option" where
  "sys_pipe s =
     (let r = lowest_free (map fst (fdtab s));
          w = lowest_free (r # map fst (fdtab s)) in
      if fd_limit s \<le> r \<or> fd_limit s \<le> w then
        (s\<lparr>errno := EMFILE, trace := trace s @ [Sys_pipe None]\<rparr>, None)
      else
        (s\<lparr>fdtab := fdtab s @ [(r, Pipe_read (pipes s)), (w, Pipe_write (pipes s))],
           pipes := Suc (pipes s),
           trace := trace s @ [Sys_pipe (Some (r, w))]\<rparr>, Some (r, w)))"

definition sys_close :: "world \<Rightarrow> int \<Rightarrow> world" where
  "sys_close s n =
     s\<lparr>fdtab := filter (\<lambda>e. fst e \<noteq> n) (fdtab s), trace := trace s @ [Sys_close n]\<rparr>"

text \<open>One call of write(2) on \<open>buf\<close>: the number of bytes taken, or \<open>-1\<close>.\<close>

definition sys_write :: "world \<Rightarrow> int \<Rightarrow> string \<Rightarrow> world \<times> int" where
  "sys_write s n buf =
     (case write_results s of
        [] \<Rightarrow> (s\<lparr>trace := trace s @ [Sys_write n (int (length buf))]\<rparr>, int (length buf))
      | Write_accept k # ws \<Rightarrow>
          (s\<lparr>write_results := ws,
             trace := trace s @ [Sys_write n (int (min k (length buf)))]\<rparr>,
           int (min k (length buf)))
      | Write_fail e # ws \<Rightarrow>
          (s\<lparr>write_results := ws, errno := e, trace := trace s @ [Sys_write n (- 1)]\<rparr>, - 1))"

text \<open>One call of read(2) asking for \<open>count\<close> bytes: the length returned and the bytes.\<close>

definition sys_read :: "world \<Rightarrow> int \<Rightarrow> nat \<Rightarrow> world \<times> int \<times> string" where
  "sys_read s n count =
     (case read_results s of
        [] \<Rightarrow> (s\<lparr>trace := trace s @ [Sys_read n 0]\<rparr>, 0, [])
      | Read_data bytes # rs \<Rightarrow>
          (s\<lparr>read_results := rs,
             trace := trace s @ [Sys_read n (int (length (take count bytes)))]\<rparr>,
           int (length (take count bytes)), take count bytes)
      | Read_fail e # rs \<Rightarrow>
          (s\<lparr>read_results := rs, errno := e, trace := trace s @ [Sys_read n (- 1)]\<rparr>, - 1, []))"

text \<open>posix\_spawnp: the error code (0 on success) and the pid of the new child.\<close>

definition sys_posix_spawnp ::
  "world \<Rightarrow> string \<Rightarrow> file_action list \<Rightarrow> string list \<Rightarrow> world \<times> int \<times> int" where
  "sys_posix_spawnp s file acts argv =
     (case spawn_results s file of (err, waitstatus) \<Rightarrow>
        if err \<noteq> 0 then
          (s\<lparr>trace := trace s @ [Sys_posix_spawnp argv acts err 0]\<rparr>, err, 0)
        else
          (s\<lparr>children := children s @ [(waitstatus, False)],
             trace := trace s @ [Sys_posix_spawnp argv acts 0 (int (length (children s)) + 1)]\<rparr>,
           0, int (length (children s)) + 1))"

text \<open>
  waitpid on one pid: the wait status of the child, which is reaped, or \<open>None\<close> when the
  caller has no such child left to wait for.
\<close>

definition sys_waitpid :: "world \<Rightarrow> int \<Rightarrow> world \<times> int option" where
  "sys_waitpid s p =
     (if 1 \<le> p \<and> nat p \<le> length (children s) \<and> \<not> snd (children s ! (nat p - 1)) then
        (s\<lparr>children := (children s)[nat p - 1 := (fst (children s ! (nat p - 1)), True)],
           trace := trace s @ [Sys_waitpid p (Some (fst (children s ! (nat p - 1))))]\<rparr>,
         Some (fst (children s ! (nat p - 1))))
      else
        (s\<lparr>errno := ECHILD, trace := trace s @ [Sys_waitpid p None]\<rparr>, None))"

subsection \<open>descriptor, odescriptor, idescriptor\<close>

text \<open>
  \<^verbatim>\<open>closable()\<close> is virtual: \<^verbatim>\<open>descriptor::closable\<close> returns false, the overrides
  in \<^verbatim>\<open>odescriptor\<close> and \<^verbatim>\<open>idescriptor\<close> return \<^verbatim>\<open>fd() >= 0\<close>. Every class
  other than the base inherits one of the two overrides; the using-declarations of the
  file descriptors name \<^verbatim>\<open>file_descriptor::closable\<close> but do not override.
\<close>

definition closable :: "descriptor \<Rightarrow> bool" where
  "closable d = (case dtype d of Descriptor \<Rightarrow> False | _ \<Rightarrow> 0 \<le> fd d)"

definition set_fd :: "world \<Rightarrow> addr \<Rightarrow> int \<Rightarrow> world" where
  "set_fd s a n = s\<lparr>heap := (heap s)[a := (heap s ! a)\<lparr>fd := n\<rparr>]\<rparr>"

text \<open>\<^verbatim>\<open>odescriptor::close\<close> and \<^verbatim>\<open>idescriptor::close\<close>.\<close>

definition odescriptor_close :: "world \<Rightarrow> addr \<Rightarrow> error + world" where
  "odescriptor_close s a =
     (if length (heap s) \<le> a then Inl undefined_behaviour
      else if closable (heap s ! a) then
        Inr (set_fd (sys_close s (fd (heap s ! a))) a (- 1))
      else Inr s)"

definition idescriptor_close :: "world \<Rightarrow> addr \<Rightarrow> error + world" where
  "idescriptor_close s a =
     (if length (heap s) \<le> a then Inl undefined_behaviour
      else if closable (heap s ! a) then
        Inr (set_fd (sys_close s (fd (heap s ! a))) a (- 1))
      else Inr s)"

text \<open>
  \<^verbatim>\<open>odescriptor::write\<close>: the loop writes what is left of the string until nothing is
  left; \<open>rest\<close> is \<^verbatim>\<open>input.c_str() + offset\<close> and its length is \<^verbatim>\<open>total\<close>.
\<close>

function write_loop :: "world \<Rightarrow> int \<Rightarrow> string \<Rightarrow> error + world" where
  "write_loop s n rest =
     (if 0 < length rest then
        (case sys_write s n rest of (s', len) \<Rightarrow>
           if 0 \<le> len then write_loop s' n (drop (nat len) rest)
           else Inl (os_error [''write''] (errno s')))
      else Inr s)"
  by pat_completeness auto
termination
  by (relation "measure (\<lambda>(s, n, rest). length (write_results s) + length rest)")
     (auto simp: sys_write_def split: list.splits write_result.splits)

definition odescriptor_write :: "world \<Rightarrow> addr \<Rightarrow> string \<Rightarrow> error + world" where
  "odescriptor_write s a inp =
     (if length (heap s) \<le> a then Inl undefined_behaviour
      else write_loop s (fd (heap s ! a)) inp)"

text \<open>
  \<^verbatim>\<open>idescriptor::read\<close>: the loop appends while read(2) returns a positive length and
  hands back the last length with what was gathered.
\<close>

function read_loop :: "world \<Rightarrow> int \<Rightarrow> string \<Rightarrow> world \<times> int \<times> string" where
  "read_loop s n out =
     (case sys_read s n 2048 of (s', len, buf) \<Rightarrow>
        if 0 < len then read_loop s' n (out @ buf) else (s', len, out))"
  by pat_completeness auto
termination
  by (relation "measure (\<lambda>(s, n, out). length (read_results s))")
     (auto simp: sys_read_def split: list.splits read_result.splits)

text \<open>
  After the loop the source has \<^verbatim>\<open>if (len < 0) { exceptions::os_error{"read"}; }\<close>:
  the exception object is constructed and dropped, there is no \<^verbatim>\<open>throw\<close>. Both
  branches return the string.
\<close>

definition idescriptor_read :: "world \<Rightarrow> addr \<Rightarrow> error + world \<times> string" where
  "idescriptor_read s a =
     (if length (heap s) \<le> a then Inl undefined_behaviour
      else
        (case read_loop s (fd (heap s ! a)) [] of (s', len, out) \<Rightarrow>
           if len < 0 then Inr (s', out) else Inr (s', out)))"

subsection \<open>file\_descriptor\<close>

definition file_descriptor_open :: "world \<Rightarrow> addr \<Rightarrow> error + world" where
  "file_descriptor_open s a =
     (if length (heap s) \<le> a then Inl undefined_behaviour
      else if 0 < fd (heap s ! a) then Inr s
      else
        (case sys_open s (path (heap s ! a)) (mode (heap s ! a)) of (s', n) \<Rightarrow>
           if 0 \<le> n then Inr (set_fd s' a n)
           else Inl (os_error [''open'', path (heap s ! a)] (errno s'))))"

subsection \<open>opipe\_descriptor, ipipe\_descriptor\<close>

text \<open>
  The store through \<^verbatim>\<open>linked_fd_\<close> is not guarded; with a null partner pointer (or one
  that points to no object) it is undefined behaviour. The two assignments are made in the
  order of the source.
\<close>

definition opipe_descriptor_open :: "world \<Rightarrow> addr \<Rightarrow> error + world" where
  "opipe_descriptor_open s a =
     (if length (heap s) \<le> a then Inl undefined_behaviour
      else if closable (heap s ! a) then Inr s
      else
        (case sys_pipe s of
           (s', None) \<Rightarrow> Inl (os_error [''pipe''] (errno s'))
         | (s', Some (r, w)) \<Rightarrow>
             (case linked_fd (heap s ! a) of
                None \<Rightarrow> Inl undefined_behaviour
              | Some l \<Rightarrow>
                  if length (heap s) \<le> l then Inl undefined_behaviour
                  else Inr (set_fd (set_fd s' l r) a w))))"

definition ipipe_descriptor_open :: "world \<Rightarrow> addr \<Rightarrow> error + world" where
  "ipipe_descriptor_open s a =
     (if length (heap s) \<le> a then Inl undefined_behaviour
      else if closable (heap s ! a) then Inr s
      else
        (case sys_pipe s of
           (s', None) \<Rightarrow> Inl (os_error [''pipe''] (errno s'))
         | (s', Some (r, w)) \<Rightarrow>
             (case linked_fd (heap s ! a) of
                None \<Rightarrow> Inl undefined_behaviour
              | Some l \<Rightarrow>
                  if length (heap s) \<le> l then Inl undefined_behaviour
                  else Inr (set_fd (set_fd s' a r) l w))))"

subsection \<open>ovariable\_descriptor, ivariable\_descriptor\<close>

text \<open>\<^verbatim>\<open>ovariable_descriptor::read\<close>: \<^verbatim>\<open>output_ = input_pipe_.read()\<close>.\<close>

definition ovariable_descriptor_read :: "world \<Rightarrow> addr \<Rightarrow> error + world" where
  "ovariable_descriptor_read s a =
     (if length (heap s) \<le> a then Inl undefined_behaviour
      else
        (case idescriptor_read s (member_pipe (heap s ! a)) of
           Inl e \<Rightarrow> Inl e
         | Inr (s', out) \<Rightarrow> Inr (s'\<lparr>vars := (vars s')[output_var (heap s ! a) := out]\<rparr>)))"

definition ovariable_descriptor_close :: "world \<Rightarrow> addr \<Rightarrow> error + world" where
  "ovariable_descriptor_close s a =
     (if length (heap s) \<le> a then Inl undefined_behaviour
      else if \<not> closable (heap s ! a) then Inr s
      else
        (case odescriptor_close s a of
           Inl e \<Rightarrow> Inl e
         | Inr s1 \<Rightarrow>
             (case ovariable_descriptor_read s1 a of
                Inl e \<Rightarrow> Inl e
              | Inr s2 \<Rightarrow>
                  (case idescriptor_close s2 (member_pipe (heap s2 ! a)) of
                     Inl e \<Rightarrow> Inl e
                   | Inr s3 \<Rightarrow> Inr (set_fd s3 a (- 1))))))"

text \<open>\<^verbatim>\<open>ivariable_descriptor::write\<close>: \<^verbatim>\<open>output_pipe_.write(input_)\<close>.\<close>

definition ivariable_descriptor_write :: "world \<Rightarrow> addr \<Rightarrow> error + world" where
  "ivariable_descriptor_write s a =
     (if length (heap s) \<le> a then Inl undefined_behaviour
      else odescriptor_write s (member_pipe (heap s ! a)) (input_data (heap s ! a)))"

definition ivariable_descriptor_open :: "world \<Rightarrow> addr \<Rightarrow> error + world" where
  "ivariable_descriptor_open s a =
     (if length (heap s) \<le> a then Inl undefined_behaviour
      else if closable (heap s ! a) then Inr s
      else
        (case ipipe_descriptor_open s a of
           Inl e \<Rightarrow> Inl e
         | Inr s1 \<Rightarrow>
             (case ivariable_descriptor_write s1 a of
                Inl e \<Rightarrow> Inl e
              | Inr s2 \<Rightarrow> odescriptor_close s2 (member_pipe (heap s2 ! a)))))"

subsection \<open>Virtual dispatch of open() and close()\<close>

text \<open>
  A call through a \<^verbatim>\<open>descriptor_ptr\<close> reaches the final overrider of the dynamic type:
  \<^verbatim>\<open>descriptor::open\<close> and \<^verbatim>\<open>descriptor::close\<close> do nothing.
\<close>

definition descriptor_open :: "world \<Rightarrow> addr \<Rightarrow> error + world" where
  "descriptor_open s a =
     (if length (heap s) \<le> a then Inl undefined_behaviour
      else
        (case dtype (heap s ! a) of
           Descriptor \<Rightarrow> Inr s
         | Ifile_descriptor \<Rightarrow> file_descriptor_open s a
         | Ofile_descriptor \<Rightarrow> file_descriptor_open s a
         | Ipipe_descriptor \<Rightarrow> ipipe_descriptor_open s a
         | Opipe_descriptor \<Rightarrow> opipe_descriptor_open s a
         | Ivariable_descriptor \<Rightarrow> ivariable_descriptor_open s a
         | Ovariable_descriptor \<Rightarrow> opipe_descriptor_open s a))"

definition descriptor_close :: "world \<Rightarrow> addr \<Rightarrow> error + world" where
  "descriptor_close s a =
     (if length (heap s) \<le> a then Inl undefined_behaviour
      else
        (case dtype (heap s ! a) of
           Descriptor \<Rightarrow> Inr s
         | Ifile_descriptor \<Rightarrow> idescriptor_close s a
         | Ofile_descriptor \<Rightarrow> odescriptor_close s a
         | Ipipe_descriptor \<Rightarrow> idescriptor_close s a
         | Opipe_descriptor \<Rightarrow> odescriptor_close s a
         | Ivariable_descriptor \<Rightarrow> idescriptor_close s a
         | Ovariable_descriptor \<Rightarrow> ovariable_descriptor_close s a))"

subsection \<open>Constructing descriptors\<close>

text \<open>
  A default-constructed \<^verbatim>\<open>descriptor\<close> has \<^verbatim>\<open>fd_{-1}\<close>; pipe ends start with
  \<^verbatim>\<open>linked_fd_{nullptr}\<close>.
\<close>

definition new_descriptor :: descriptor where
  "new_descriptor =
     \<lparr>dtype = Descriptor, fd = - 1, path = [], mode = 0, linked_fd = None,
      member_pipe = 0, input_data = [], output_var = 0\<rparr>"

text \<open>\<^verbatim>\<open>explicit descriptor(int fd)\<close>.\<close>

definition descriptor_of_fd :: "int \<Rightarrow> descriptor" where
  "descriptor_of_fd n = new_descriptor\<lparr>fd := n\<rparr>"

text \<open>
  \<^verbatim>\<open>ofile_descriptor(path, mode = 0)\<close> passes \<^verbatim>\<open>O_WRONLY | mode\<close> to
  \<^verbatim>\<open>file_descriptor\<close>, \<^verbatim>\<open>ifile_descriptor(path, mode = 0)\<close> passes
  \<^verbatim>\<open>O_RDONLY | mode\<close>.
\<close>

definition ofile_descriptor :: "string \<Rightarrow> 32 word \<Rightarrow> descriptor" where
  "ofile_descriptor p m = new_descriptor\<lparr>dtype := Ofile_descriptor, path := p, mode := O_WRONLY OR m\<rparr>"

definition ifile_descriptor :: "string \<Rightarrow> 32 word \<Rightarrow> descriptor" where
  "ifile_descriptor p m = new_descriptor\<lparr>dtype := Ifile_descriptor, path := p, mode := O_RDONLY OR m\<rparr>"

definition opipe_descriptor :: descriptor where
  "opipe_descriptor = new_descriptor\<lparr>dtype := Opipe_descriptor\<rparr>"

definition ipipe_descriptor :: descriptor where
  "ipipe_descriptor = new_descriptor\<lparr>dtype := Ipipe_descriptor\<rparr>"

text \<open>\<^verbatim>\<open>make_descriptor\<close>: the new object gets the next address.\<close>

definition make_descriptor :: "world \<Rightarrow> descriptor \<Rightarrow> world \<times> addr" where
  "make_descriptor s d = (s\<lparr>heap := heap s @ [d]\<rparr>, length (heap s))"

text \<open>
  The buffer descriptors hold their other pipe end as a data member and point
  \<^verbatim>\<open>linked_fd_\<close> at it in the constructor; the member's own \<^verbatim>\<open>linked_fd_\<close> stays
  null. The member is placed in front of the object that holds it.
\<close>

definition make_ovariable_descriptor :: "world \<Rightarrow> nat \<Rightarrow> world \<times> addr" where
  "make_ovariable_descriptor s v =
     (case make_descriptor s ipipe_descriptor of (s1, m) \<Rightarrow>
        make_descriptor s1
          (new_descriptor\<lparr>dtype := Ovariable_descriptor, linked_fd := Some m,
             member_pipe := m, output_var := v\<rparr>))"

definition make_ivariable_descriptor :: "world \<Rightarrow> string \<Rightarrow> world \<times> addr" where
  "make_ivariable_descriptor s inp =
     (case make_descriptor s opipe_descriptor of (s1, m) \<Rightarrow>
        make_descriptor s1
          (new_descriptor\<lparr>dtype := Ivariable_descriptor, linked_fd := Some m,
             member_pipe := m, input_data := inp\<rparr>))"

text \<open>\<^verbatim>\<open>link(ipipe_descriptor& fd1, opipe_descriptor& fd2)\<close>.\<close>

definition link :: "world \<Rightarrow> addr \<Rightarrow> addr \<Rightarrow> error + world" where
  "link s fd1 fd2 =
     (if length (heap s) \<le> fd1 \<or> length (heap s) \<le> fd2 then Inl undefined_behaviour
      else if linked_fd (heap s ! fd1) \<noteq> None \<or> linked_fd (heap s ! fd2) \<noteq> None then
        Inl (usage_error
          ''You tried to link a file descriptor that is already linked to another file descriptor!'')
      else
        (let h1 = (heap s)[fd1 := (heap s ! fd1)\<lparr>linked_fd := Some fd2\<rparr>];
             h2 = h1[fd2 := (h1 ! fd2)\<lparr>linked_fd := Some fd1\<rparr>]
         in Inr (s\<lparr>heap := h2\<rparr>)))"

definition create_pipe :: "world \<Rightarrow> error + world \<times> addr \<times> addr" where
  "create_pipe s =
     (case make_descriptor s ipipe_descriptor of (s1, read_fd) \<Rightarrow>
        (case make_descriptor s1 opipe_descriptor of (s2, write_fd) \<Rightarrow>
           (case link s2 read_fd write_fd of
              Inl e \<Rightarrow> Inl e
            | Inr s3 \<Rightarrow> Inr (s3, read_fd, write_fd))))"

text \<open>
  \<^verbatim>\<open>std_in()\<close>, \<^verbatim>\<open>std_out()\<close>, \<^verbatim>\<open>std_err()\<close> return one static object each, built
  from the standard file numbers. The statics are the first three objects of the heap.
\<close>

definition std_in :: addr where "std_in = 0"
definition std_out :: addr where "std_out = 1"
definition std_err :: addr where "std_err = 2"

definition static_descriptors :: "descriptor list" where
  "static_descriptors =
     [descriptor_of_fd standard_in, descriptor_of_fd standard_out, descriptor_of_fd standard_error]"

subsection \<open>posix\_spawn\_file\_actions\<close>

record posix_spawn_file_actions =
  actions :: "file_action list"
  closed_fds :: "int set"

definition new_posix_spawn_file_actions :: posix_spawn_file_actions where
  "new_posix_spawn_file_actions = \<lparr>actions = [], closed_fds = {}\<rparr>"

text \<open>
  \<^verbatim>\<open>dup\<close> calls \<^verbatim>\<open>posix_spawn_file_actions_adddup2\<close> and drops its result; the call
  adds nothing for a negative file descriptor (it fails with EBADF).
\<close>

definition dup :: "posix_spawn_file_actions \<Rightarrow> descriptor \<Rightarrow> int \<Rightarrow> posix_spawn_file_actions" where
  "dup action fd_from fd_to =
     (if fd fd_from < 0 then action
      else action\<lparr>actions := actions action @ [Adddup2 (fd fd_from) fd_to]\<rparr>)"

definition close :: "posix_spawn_file_actions \<Rightarrow> descriptor \<Rightarrow> posix_spawn_file_actions" where
  "close action d =
     (if closable d \<and> fd d \<notin> closed_fds action then
        action\<lparr>actions := actions action @ [Addclose (fd d)],
               closed_fds := insert (fd d) (closed_fds action)\<rparr>
      else action)"

subsection \<open>posix\_process\<close>

record posix_process =
  cmd :: string
  stdin_fd :: addr
  stdout_fd :: addr
  stderr_fd :: addr
  pid :: "int option"

definition new_posix_process :: "string \<Rightarrow> posix_process" where
  "new_posix_process c =
     \<lparr>cmd = c, stdin_fd = std_in, stdout_fd = std_out, stderr_fd = std_err, pid = None\<rparr>"

text \<open>The setters \<^verbatim>\<open>in\<close>, \<^verbatim>\<open>out\<close>, \<^verbatim>\<open>err\<close>, \<^verbatim>\<open>out(err_t)\<close>, \<^verbatim>\<open>err(out_t)\<close>.\<close>

definition set_in :: "posix_process \<Rightarrow> addr \<Rightarrow> posix_process" where
  "set_in p a = p\<lparr>stdin_fd := a\<rparr>"

definition set_out :: "posix_process \<Rightarrow> addr \<Rightarrow> posix_process" where
  "set_out p a = p\<lparr>stdout_fd := a\<rparr>"

definition set_err :: "posix_process \<Rightarrow> addr \<Rightarrow> posix_process" where
  "set_err p a = p\<lparr>stderr_fd := a\<rparr>"

definition out_to_err :: "posix_process \<Rightarrow> posix_process" where
  "out_to_err p = p\<lparr>stdout_fd := stderr_fd p\<rparr>"

definition err_to_out :: "posix_process \<Rightarrow> posix_process" where
  "err_to_out p = p\<lparr>stderr_fd := stdout_fd p\<rparr>"

text \<open>The lambda \<^verbatim>\<open>process_fds\<close> of \<^verbatim>\<open>execute\<close>: open, then record the dup.\<close>

definition process_fds ::
  "world \<Rightarrow> posix_spawn_file_actions \<Rightarrow> addr \<Rightarrow> int \<Rightarrow> error + world \<times> posix_spawn_file_actions" where
  "process_fds s action a dup_to =
     (case descriptor_open s a of
        Inl e \<Rightarrow> Inl e
      | Inr s' \<Rightarrow> Inr (s', dup action (heap s' ! a) dup_to))"

text \<open>
  \<^verbatim>\<open>posix_process::execute\<close>, in three parts that follow one another in the body.

  First the file actions: the three calls of \<^verbatim>\<open>process_fds\<close> and the three calls of
  \<^verbatim>\<open>action.close\<close>.
\<close>

definition file_actions_for ::
  "world \<Rightarrow> posix_process \<Rightarrow> error + world \<times> posix_spawn_file_actions" where
  "file_actions_for s p =
     (case process_fds s new_posix_spawn_file_actions (stdin_fd p) standard_in of
        Inl e \<Rightarrow> Inl e
      | Inr (s1, action1) \<Rightarrow>
     (case process_fds s1 action1 (stdout_fd p) standard_out of
        Inl e \<Rightarrow> Inl e
      | Inr (s2, action2) \<Rightarrow>
     (case process_fds s2 action2 (stderr_fd p) standard_error of
        Inl e \<Rightarrow> Inl e
      | Inr (s3, action3) \<Rightarrow>
          Inr (s3, close (close (close action3 (heap s3 ! stdin_fd p))
                                 (heap s3 ! stdout_fd p))
                          (heap s3 ! stderr_fd p)))))"

text \<open>
  Then the spawn, up to \<^verbatim>\<open>pid_ = pid\<close>. The constructor of \<^verbatim>\<open>shell_expander\<close>
  drops the return code of wordexp; \<^verbatim>\<open>sh.argv()[0]\<close> is first read in the call of
  posix\_spawnp, after the descriptors have been opened. A null \<^verbatim>\<open>we_wordv\<close>, and a
  vector without a first word, give posix\_spawnp a null pointer to read.
\<close>

definition spawn_child :: "world \<Rightarrow> posix_process \<Rightarrow> error + world \<times> posix_process" where
  "spawn_child s p =
     (case wordexp_results s (cmd p) of (rc, sh) \<Rightarrow>
        (case file_actions_for s p of
           Inl e \<Rightarrow> Inl e
         | Inr (s3, action) \<Rightarrow>
             (case sh of
                None \<Rightarrow> Inl undefined_behaviour
              | Some [] \<Rightarrow> Inl undefined_behaviour
              | Some (file # args) \<Rightarrow>
                  (case sys_posix_spawnp s3 file (actions action) (file # args) of
                     (s4, err, new_pid) \<Rightarrow>
                       if err \<noteq> 0 then Inl (os_error [''posix_spawnp:'', file] err)
                       else Inr (s4, p\<lparr>pid := Some new_pid\<rparr>)))))"

text \<open>Last the three calls of \<^verbatim>\<open>close()\<close> on the parent side.\<close>

definition close_parent_side :: "world \<Rightarrow> posix_process \<Rightarrow> error + world" where
  "close_parent_side s p =
     (case descriptor_close s (stdin_fd p) of
        Inl e \<Rightarrow> Inl e
      | Inr s5 \<Rightarrow>
     (case descriptor_close s5 (stdout_fd p) of
        Inl e \<Rightarrow> Inl e
      | Inr s6 \<Rightarrow> descriptor_close s6 (stderr_fd p)))"

definition execute :: "world \<Rightarrow> posix_process \<Rightarrow> error + world \<times> posix_process" where
  "execute s p =
     (case spawn_child s p of
        Inl e \<Rightarrow> Inl e
      | Inr (s4, p4) \<Rightarrow>
          (case close_parent_side s4 p4 of
             Inl e \<Rightarrow> Inl e
           | Inr s7 \<Rightarrow> Inr (s7, p4)))"

text \<open>
  \<^verbatim>\<open>posix_process::wait\<close>: \<^verbatim>\<open>waitstatus\<close> starts as 0 and keeps that value when
  waitpid fails, whose result is not looked at.
\<close>

definition wait :: "world \<Rightarrow> posix_process \<Rightarrow> error + world \<times> int" where
  "wait s p =
     (case pid p of
        None \<Rightarrow> Inl (usage_error ''posix_process.wait() called before posix_process.execute()'')
      | Some n \<Rightarrow>
          (case sys_waitpid s n of (s', r) \<Rightarrow>
             Inr (s', WEXITSTATUS (case r of None \<Rightarrow> 0 | Some waitstatus \<Rightarrow> waitstatus))))"

subsection \<open>command\<close>

record command =
  processes :: "posix_process list"

text \<open>The constructor \<^verbatim>\<open>explicit command(std::string cmd)\<close>, also behind the literal.\<close>

definition new_command :: "string \<Rightarrow> command" where
  "new_command c = \<lparr>processes = [new_posix_process c]\<rparr>"

text \<open>
  \<^verbatim>\<open>processes_.front()\<close> and \<^verbatim>\<open>processes_.back()\<close> changed in place; on an empty
  list (a command that has been moved from) both are undefined behaviour.
\<close>

definition on_front :: "(posix_process \<Rightarrow> posix_process) \<Rightarrow> command \<Rightarrow> error + command" where
  "on_front f c =
     (case processes c of
        [] \<Rightarrow> Inl undefined_behaviour
      | p # ps \<Rightarrow> Inr (c\<lparr>processes := f p # ps\<rparr>))"

definition on_back :: "(posix_process \<Rightarrow> posix_process) \<Rightarrow> command \<Rightarrow> error + command" where
  "on_back f c =
     (if processes c = [] then Inl undefined_behaviour
      else Inr (c\<lparr>processes := butlast (processes c) @ [f (last (processes c))]\<rparr>))"

fun execute_all :: "world \<Rightarrow> posix_process list \<Rightarrow> error + world \<times> posix_process list" where
  "execute_all s [] = Inr (s, [])"
| "execute_all s (p # ps) =
     (case execute s p of
        Inl e \<Rightarrow> Inl e
      | Inr (s1, p1) \<Rightarrow>
          (case execute_all s1 ps of
             Inl e \<Rightarrow> Inl e
           | Inr (s2, ps2) \<Rightarrow> Inr (s2, p1 # ps2)))"

fun wait_all :: "world \<Rightarrow> posix_process list \<Rightarrow> int \<Rightarrow> error + world \<times> int" where
  "wait_all s [] waitstatus = Inr (s, waitstatus)"
| "wait_all s (p # ps) waitstatus =
     (case wait s p of
        Inl e \<Rightarrow> Inl e
      | Inr (s1, status) \<Rightarrow> wait_all s1 ps status)"

text \<open>\<^verbatim>\<open>command::run(std::nothrow_t)\<close>: the two loops over \<^verbatim>\<open>processes_\<close>.\<close>

definition run_nothrow :: "world \<Rightarrow> command \<Rightarrow> error + world \<times> command \<times> int" where
  "run_nothrow s c =
     (case execute_all s (processes c) of
        Inl e \<Rightarrow> Inl e
      | Inr (s1, ps) \<Rightarrow>
          (case wait_all s1 ps 0 of
             Inl e \<Rightarrow> Inl e
           | Inr (s2, waitstatus) \<Rightarrow> Inr (s2, c\<lparr>processes := ps\<rparr>, waitstatus)))"

text \<open>\<^verbatim>\<open>std::to_string\<close> on an int.\<close>

function string_of_nat :: "nat \<Rightarrow> string" where
  "string_of_nat n =
     (if n < 10 then [char_of (48 + n)]
      else string_of_nat (n div 10) @ [char_of (48 + n mod 10)])"
  by pat_completeness auto
termination
  by (relation "measure id") auto

definition to_string :: "int \<Rightarrow> string" where
  "to_string i = (if i < 0 then CHR ''-'' # string_of_nat (nat (- i)) else string_of_nat (nat i))"

text \<open>\<^verbatim>\<open>command::run()\<close>.\<close>

definition run :: "world \<Rightarrow> command \<Rightarrow> error + world \<times> command \<times> int" where
  "run s c =
     (case run_nothrow s c of
        Inl e \<Rightarrow> Inl e
      | Inr (s', c', status) \<Rightarrow>
          if status \<noteq> 0 then Inl (command_error [''command exitstatus'', to_string status] status)
          else Inr (s', c', status))"

text \<open>The pipe operator taking \<^verbatim>\<open>command&& other\<close>.\<close>

definition pipe_to :: "world \<Rightarrow> command \<Rightarrow> command \<Rightarrow> error + world \<times> command" where
  "pipe_to s c other =
     (case create_pipe s of
        Inl e \<Rightarrow> Inl e
      | Inr (s', read_fd, write_fd) \<Rightarrow>
          (case on_front (\<lambda>p. set_in p read_fd) other of
             Inl e \<Rightarrow> Inl e
           | Inr other' \<Rightarrow>
               (case on_back (\<lambda>p. set_out p write_fd) c of
                  Inl e \<Rightarrow> Inl e
                | Inr c' \<Rightarrow> Inr (s', c'\<lparr>processes := processes c' @ processes other'\<rparr>))))"

text \<open>The pipe operator taking \<^verbatim>\<open>std::string other\<close>.\<close>

definition pipe_to_string :: "world \<Rightarrow> command \<Rightarrow> string \<Rightarrow> error + world \<times> command" where
  "pipe_to_string s c other = pipe_to s c (new_command other)"

subsection \<open>The redirection operators\<close>

text \<open>
  The operators on a descriptor pointer or a tag. In the order of the source: less-than
  with a descriptor (stdin of the first process), greater-than with \<^verbatim>\<open>err_t\<close>,
  greater-than with a descriptor (stdout of the last process), greater-or-equal with
  \<^verbatim>\<open>out_t\<close>, greater-or-equal with a descriptor (stderr of the last process), and the
  two shift operators, which call greater-than and greater-or-equal.
\<close>

definition redirect_in_fd :: "command \<Rightarrow> addr \<Rightarrow> error + command" where
  "redirect_in_fd c a = on_front (\<lambda>p. set_in p a) c"

definition redirect_out_err_tag :: "command \<Rightarrow> error + command" where
  "redirect_out_err_tag c = on_back out_to_err c"

definition redirect_out_fd :: "command \<Rightarrow> addr \<Rightarrow> error + command" where
  "redirect_out_fd c a = on_back (\<lambda>p. set_out p a) c"

definition redirect_err_out_tag :: "command \<Rightarrow> error + command" where
  "redirect_err_out_tag c = on_back err_to_out c"

definition redirect_err_fd :: "command \<Rightarrow> addr \<Rightarrow> error + command" where
  "redirect_err_fd c a = on_back (\<lambda>p. set_err p a) c"

definition append_out_fd :: "command \<Rightarrow> addr \<Rightarrow> error + command" where
  "append_out_fd c a = redirect_out_fd c a"

definition append_err_fd :: "command \<Rightarrow> addr \<Rightarrow> error + command" where
  "append_err_fd c a = redirect_err_fd c a"

text \<open>
  The operators on a \<^verbatim>\<open>std::string&\<close>: the descriptor is made first, then handed to
  the operator on descriptors.
\<close>

definition with_made ::
  "(command \<Rightarrow> addr \<Rightarrow> error + command) \<Rightarrow> command \<Rightarrow> world \<times> addr \<Rightarrow> error + world \<times> command" where
  "with_made operator c made =
     (case made of (s', a) \<Rightarrow>
        (case operator c a of Inl e \<Rightarrow> Inl e | Inr c' \<Rightarrow> Inr (s', c')))"

definition redirect_err_string :: "world \<Rightarrow> command \<Rightarrow> nat \<Rightarrow> error + world \<times> command" where
  "redirect_err_string s c v = with_made redirect_err_fd c (make_ovariable_descriptor s v)"

definition redirect_out_string :: "world \<Rightarrow> command \<Rightarrow> nat \<Rightarrow> error + world \<times> command" where
  "redirect_out_string s c v = with_made redirect_out_fd c (make_ovariable_descriptor s v)"

definition redirect_in_string :: "world \<Rightarrow> command \<Rightarrow> string \<Rightarrow> error + world \<times> command" where
  "redirect_in_string s c inp = with_made redirect_in_fd c (make_ivariable_descriptor s inp)"

text \<open>
  The operators on a \<^verbatim>\<open>std::filesystem::path\<close>. All five make an
  \<^verbatim>\<open>ofile_descriptor\<close>, the one for stdin too, and that one with the default mode.
\<close>

definition redirect_out_path :: "world \<Rightarrow> command \<Rightarrow> string \<Rightarrow> error + world \<times> command" where
  "redirect_out_path s c file_name =
     with_made redirect_out_fd c (make_descriptor s (ofile_descriptor file_name (O_CREAT OR O_TRUNC)))"

definition redirect_err_path :: "world \<Rightarrow> command \<Rightarrow> string \<Rightarrow> error + world \<times> command" where
  "redirect_err_path s c file_name =
     with_made redirect_err_fd c (make_descriptor s (ofile_descriptor file_name (O_CREAT OR O_TRUNC)))"

definition append_out_path :: "world \<Rightarrow> command \<Rightarrow> string \<Rightarrow> error + world \<times> command" where
  "append_out_path s c file_name =
     with_made append_out_fd c (make_descriptor s (ofile_descriptor file_name (O_CREAT OR O_APPEND)))"

definition append_err_path :: "world \<Rightarrow> command \<Rightarrow> string \<Rightarrow> error + world \<times> command" where
  "append_err_path s c file_name =
     with_made append_err_fd c (make_descriptor s (ofile_descriptor file_name (O_CREAT OR O_APPEND)))"

definition redirect_in_path :: "world \<Rightarrow> command \<Rightarrow> string \<Rightarrow> error + world \<times> command" where
  "redirect_in_path s c file_name =
     with_made redirect_in_fd c (make_descriptor s (ofile_descriptor file_name 0))"

subsection \<open>A starting state\<close>

text \<open>
  A process that has its three standard streams open on a terminal, no other file
  descriptor, and only the static descriptor objects; the environment is a parameter.
\<close>

definition boot ::
  "int \<Rightarrow> string list \<Rightarrow> (string \<Rightarrow> int \<times> string list option) \<Rightarrow> (string \<Rightarrow> int \<times> int) \<Rightarrow> world" where
  "boot limit fs wexp spawn =
     \<lparr>heap = static_descriptors, vars = [],
      fdtab = [(0, File ''/dev/tty'' 2), (1, File ''/dev/tty'' 2), (2, File ''/dev/tty'' 2)],
      fd_limit = limit, files = fs, pipes = 0, read_results = [], write_results = [],
      children = [], wordexp_results = wexp, spawn_results = spawn, errno = 0, trace = []\<rparr>"

subsection \<open>Reading states and traces\<close>

text \<open>The spawns and reaps in a trace, in order.\<close>

datatype call = Spawn "string list" int | Reap int

fun call_of :: "syscall \<Rightarrow> call option" where
  "call_of (Sys_posix_spawnp argv acts err n) = Some (Spawn argv n)"
| "call_of (Sys_waitpid n r) = Some (Reap n)"
| "call_of _ = None"

definition calls :: "syscall list \<Rightarrow> call list" where
  "calls evs = List.map_filter call_of evs"

text \<open>The file descriptors a trace closes, in order.\<close>

fun close_of :: "syscall \<Rightarrow> int option" where
  "close_of (Sys_close n) = Some n"
| "close_of _ = None"

definition closes :: "syscall list \<Rightarrow> int list" where
  "closes evs = List.map_filter close_of evs"

text \<open>What a call has added to the trace.\<close>

definition new_events :: "world \<Rightarrow> world \<Rightarrow> syscall list" where
  "new_events s s' = drop (length (trace s)) (trace s')"

text \<open>
  The file descriptors held by the objects that are open, and the state of a heap in which
  every object that is open holds a file descriptor of the process that no other open
  object holds, and a closed one holds \<open>-1\<close>.
\<close>

definition open_fds :: "world \<Rightarrow> int set" where
  "open_fds s = {fd (heap s ! a) | a. a < length (heap s) \<and> closable (heap s ! a)}"

definition owned :: "descriptor list \<Rightarrow> int set \<Rightarrow> bool" where
  "owned h F \<longleftrightarrow>
     (\<forall>a < length h. - 1 \<le> fd (h ! a)) \<and>
     (\<forall>a < length h. closable (h ! a) \<longrightarrow> fd (h ! a) \<in> F) \<and>
     (\<forall>a < length h. \<forall>b < length h.
        closable (h ! a) \<and> closable (h ! b) \<and> fd (h ! a) = fd (h ! b) \<longrightarrow> a = b)"

definition fd_ownership :: "world \<Rightarrow> bool" where
  "fd_ownership s = owned (heap s) (fst ` set (fdtab s))"

text \<open>
  A step that leaves the objects as they are but for their \<open>fd\<close>, spawns and reaps
  nothing, and leaves the children and the environment alone.
\<close>

definition io_step :: "world \<Rightarrow> world \<Rightarrow> bool" where
  "io_step s s' \<longleftrightarrow>
     map (\<lambda>d. d\<lparr>fd := 0\<rparr>) (heap s') = map (\<lambda>d. d\<lparr>fd := 0\<rparr>) (heap s) \<and>
     children s' = children s \<and>
     wordexp_results s' = wordexp_results s \<and>
     spawn_results s' = spawn_results s \<and>
     (\<exists>evs. trace s' = trace s @ evs \<and> calls evs = [])"

text \<open>
  A step that leaves the objects and the file descriptors of the process as they are,
  and neither spawns, reaps nor closes.
\<close>

definition silent :: "world \<Rightarrow> world \<Rightarrow> bool" where
  "silent s s' \<longleftrightarrow>
     heap s' = heap s \<and> fdtab s' = fdtab s \<and>
     children s' = children s \<and>
     wordexp_results s' = wordexp_results s \<and>
     spawn_results s' = spawn_results s \<and>
     (\<exists>evs. trace s' = trace s @ evs \<and> calls evs = [] \<and> closes evs = [])"

text \<open>
  A step that only closes: an object open afterwards was open before with the same file
  descriptor, and the trace closes, once each, the file descriptors that were held before
  and are not held afterwards.
\<close>

definition closing :: "world \<Rightarrow> world \<Rightarrow> bool" where
  "closing s s' \<longleftrightarrow>
     length (heap s') = length (heap s) \<and>
     (\<forall>b < length (heap s). closable (heap s' ! b) \<longrightarrow>
        closable (heap s ! b) \<and> fd (heap s' ! b) = fd (heap s ! b)) \<and>
     (\<exists>evs. trace s' = trace s @ evs \<and> distinct (closes evs) \<and>
        set (closes evs) = open_fds s - open_fds s')"

text \<open>A pipe end that has a partner object.\<close>

definition has_partner :: "world \<Rightarrow> addr \<Rightarrow> bool" where
  "has_partner s a = (case linked_fd (heap s ! a) of None \<Rightarrow> False | Some l \<Rightarrow> l < length (heap s))"

subsection \<open>An example environment\<close>

text \<open>
  A small environment for running the definitions: wordexp knows a few command lines and
  rejects everything else as it rejects an unquoted bar (\<^verbatim>\<open>WRDE_BADCHAR\<close> is 2, the
  vector stays null); \<^verbatim>\<open>false\<close> exits with status 1, \<^verbatim>\<open>exit42\<close> with 42, every
  other binary with 0; \<^verbatim>\<open>nosuch\<close> cannot be spawned. One file exists.
\<close>

definition example_wordexp :: "string \<Rightarrow> int \<times> string list option" where
  "example_wordexp c =
     (if c \<in> {''true'', ''false'', ''cat'', ''nosuch'', ''exit42''} then (0, Some [c])
      else if c = ''echo hello'' then (0, Some [''echo'', ''hello''])
      else (2, None))"

definition example_spawn :: "string \<Rightarrow> int \<times> int" where
  "example_spawn file =
     (if file = ''false'' then (0, 256)
      else if file = ''exit42'' then (0, 42 * 256)
      else if file = ''nosuch'' then (ENOENT, 0)
      else (0, 0))"

definition example_world :: world where
  "example_world = boot 1024 [''/etc/passwd''] example_wordexp example_spawn"

text \<open>Two pipe ends that are not linked yet, at the addresses 3 and 4.\<close>

definition example_unlinked :: world where
  "example_unlinked =
     fst (make_descriptor (fst (make_descriptor example_world ipipe_descriptor)) opipe_descriptor)"

text \<open>The pair that \<^verbatim>\<open>create_pipe\<close> makes in the example world.\<close>

definition example_piped :: "world \<times> addr \<times> addr" where
  "example_piped = (case create_pipe example_world of Inr r \<Rightarrow> r | Inl e \<Rightarrow> (example_world, 0, 0))"

text \<open>The pipeline of \<^verbatim>\<open>false\<close> piped to \<^verbatim>\<open>true\<close>.\<close>

definition example_pipeline :: "world \<times> command" where
  "example_pipeline =
     (case pipe_to_string example_world (new_command ''false'') ''true'' of
        Inr r \<Rightarrow> r
      | Inl e \<Rightarrow> (example_world, new_command ''false''))"

text \<open>
  A process \<^verbatim>\<open>cat\<close> that reads a string, writes to a file that is created, and has
  its stderr aliased to its stdout.
\<close>

definition example_aliased :: "world \<times> posix_process" where
  "example_aliased =
     (case redirect_out_path example_world (new_command ''cat'') ''/tmp/out'' of
        Inl e \<Rightarrow> (example_world, new_posix_process ''cat'')
      | Inr (s1, c1) \<Rightarrow>
          (case redirect_err_out_tag c1 of
             Inl e \<Rightarrow> (example_world, new_posix_process ''cat'')
           | Inr c2 \<Rightarrow>
               (case redirect_in_string s1 c2 ''line1'' of
                  Inl e \<Rightarrow> (example_world, new_posix_process ''cat'')
                | Inr (s3, c3) \<Rightarrow> (s3, hd (processes c3)))))"

text \<open>
  What the environment holds for the child of a process: the expanded command line, the
  wait status of the binary that is its first word, and the exit status in it.
\<close>

definition argv_of :: "world \<Rightarrow> posix_process \<Rightarrow> string list" where
  "argv_of s p = (case snd (wordexp_results s (cmd p)) of None \<Rightarrow> [] | Some argv \<Rightarrow> argv)"

definition wait_status_of :: "world \<Rightarrow> posix_process \<Rightarrow> int" where
  "wait_status_of s p =
     (case argv_of s p of [] \<Rightarrow> 0 | bin # args \<Rightarrow> snd (spawn_results s bin))"

definition exit_status_of :: "world \<Rightarrow> posix_process \<Rightarrow> int" where
  "exit_status_of s p = WEXITSTATUS (wait_status_of s p)"

text \<open>A pid that names a child of the process that has not been reaped.\<close>

definition unreaped :: "world \<Rightarrow> int \<Rightarrow> bool" where
  "unreaped s n \<longleftrightarrow> 1 \<le> n \<and> nat n \<le> length (children s) \<and> \<not> snd (children s ! (nat n - 1))"

text \<open>
  A caller that runs \<^verbatim>\<open>execute()\<close> and then \<^verbatim>\<open>wait()\<close> twice on the same process, and
  keeps the two values returned.
\<close>

definition wait_twice :: "world \<Rightarrow> posix_process \<Rightarrow> error + int \<times> int" where
  "wait_twice s p =
     (case execute s p of
        Inl e \<Rightarrow> Inl e
      | Inr (s1, p1) \<Rightarrow>
          (case wait s1 p1 of
             Inl e \<Rightarrow> Inl e
           | Inr (s2, first) \<Rightarrow>
               (case wait s2 p1 of
                  Inl e \<Rightarrow> Inl e
                | Inr (s3, second) \<Rightarrow> Inr (first, second))))"

section \<open>Lemmas\<close>

declare write_loop.simps [simp del]
declare read_loop.simps [simp del]
declare string_of_nat.simps [simp del]

lemma lowest_from_ge: "k \<le> lowest_from n k used"
proof (induction n arbitrary: k)
  case 0
  show ?case by simp
next
  case (Suc n)
  have "k + 1 \<le> lowest_from n (k + 1) used" by (rule Suc.IH)
  then show ?case by simp
qed

lemma lowest_from_fresh: "card (set used \<inter> {k..}) \<le> n \<Longrightarrow> lowest_from n k used \<notin> set used"
proof (induction n arbitrary: k)
  case 0
  then have "set used \<inter> {k..} = {}" by simp
  then show ?case by auto
next
  case (Suc n)
  show ?case
  proof (cases "k \<in> set used")
    case True
    have eq: "set used \<inter> {k..} = insert k (set used \<inter> {k + 1..})"
      using True by auto
    have "k \<notin> set used \<inter> {k + 1..}" by simp
    then have "card (set used \<inter> {k..}) = Suc (card (set used \<inter> {k + 1..}))"
      unfolding eq by (simp add: card_insert_if)
    with Suc.prems have "card (set used \<inter> {k + 1..}) \<le> n" by simp
    from Suc.IH[OF this] True show ?thesis by simp
  next
    case False
    then show ?thesis by simp
  qed
qed

lemma lowest_free_fresh: "lowest_free used \<notin> set used"
proof -
  have "card (set used \<inter> {0..}) \<le> card (set used)"
    by (rule card_mono) auto
  also have "\<dots> \<le> length used" by (rule card_length)
  finally show ?thesis unfolding lowest_free_def by (rule lowest_from_fresh)
qed

lemma lowest_free_nonneg: "0 \<le> lowest_free used"
  unfolding lowest_free_def by (rule lowest_from_ge)

subsection \<open>Traces\<close>

lemma calls_Nil [simp]: "calls [] = []"
  by (simp add: calls_def)

lemma calls_Cons [simp]:
  "calls (e # evs) = (case call_of e of None \<Rightarrow> calls evs | Some c \<Rightarrow> c # calls evs)"
  by (simp add: calls_def split: option.splits)

lemma calls_append [simp]: "calls (evs @ evs') = calls evs @ calls evs'"
  by (induction evs) (simp_all split: option.splits)

lemma closes_Nil [simp]: "closes [] = []"
  by (simp add: closes_def)

lemma closes_Cons [simp]:
  "closes (e # evs) = (case close_of e of None \<Rightarrow> closes evs | Some c \<Rightarrow> c # closes evs)"
  by (simp add: closes_def split: option.splits)

lemma closes_append [simp]: "closes (evs @ evs') = closes evs @ closes evs'"
  by (induction evs) (simp_all split: option.splits)

lemma new_events_append [simp]: "trace s' = trace s @ evs \<Longrightarrow> new_events s s' = evs"
  by (simp add: new_events_def)

subsection \<open>The system calls\<close>

lemma set_fd_fields [simp]:
  "heap (set_fd s a n) = (heap s)[a := (heap s ! a)\<lparr>fd := n\<rparr>]"
  "vars (set_fd s a n) = vars s"
  "fdtab (set_fd s a n) = fdtab s"
  "children (set_fd s a n) = children s"
  "wordexp_results (set_fd s a n) = wordexp_results s"
  "spawn_results (set_fd s a n) = spawn_results s"
  "trace (set_fd s a n) = trace s"
  "errno (set_fd s a n) = errno s"
  "pipes (set_fd s a n) = pipes s"
  by (simp_all add: set_fd_def)

lemma sys_close_fields [simp]:
  "heap (sys_close s n) = heap s"
  "vars (sys_close s n) = vars s"
  "fdtab (sys_close s n) = filter (\<lambda>e. fst e \<noteq> n) (fdtab s)"
  "children (sys_close s n) = children s"
  "wordexp_results (sys_close s n) = wordexp_results s"
  "spawn_results (sys_close s n) = spawn_results s"
  "trace (sys_close s n) = trace s @ [Sys_close n]"
  "pipes (sys_close s n) = pipes s"
  by (simp_all add: sys_close_def)

lemma sys_pipe_cases:
  obtains (fail) "sys_pipe s = (s\<lparr>errno := EMFILE, trace := trace s @ [Sys_pipe None]\<rparr>, None)"
  | (ok) r w where
      "sys_pipe s =
         (s\<lparr>fdtab := fdtab s @ [(r, Pipe_read (pipes s)), (w, Pipe_write (pipes s))],
            pipes := Suc (pipes s), trace := trace s @ [Sys_pipe (Some (r, w))]\<rparr>, Some (r, w))"
      "r \<notin> fst ` set (fdtab s)" "w \<notin> fst ` set (fdtab s)" "r \<noteq> w" "0 \<le> r" "0 \<le> w"
proof (cases "fd_limit s \<le> lowest_free (map fst (fdtab s)) \<or>
              fd_limit s \<le> lowest_free (lowest_free (map fst (fdtab s)) # map fst (fdtab s))")
  case True
  then show ?thesis by (intro fail) (auto simp: sys_pipe_def Let_def)
next
  case False
  let ?r = "lowest_free (map fst (fdtab s))"
  let ?w = "lowest_free (?r # map fst (fdtab s))"
  have r: "?r \<notin> set (map fst (fdtab s))" by (rule lowest_free_fresh)
  have w: "?w \<notin> set (?r # map fst (fdtab s))" by (rule lowest_free_fresh)
  show ?thesis
  proof (rule ok[of ?r ?w])
    show "sys_pipe s =
         (s\<lparr>fdtab := fdtab s @ [(?r, Pipe_read (pipes s)), (?w, Pipe_write (pipes s))],
            pipes := Suc (pipes s), trace := trace s @ [Sys_pipe (Some (?r, ?w))]\<rparr>, Some (?r, ?w))"
      using False by (auto simp: sys_pipe_def Let_def)
    show "?r \<notin> fst ` set (fdtab s)" using r by simp
    show "?w \<notin> fst ` set (fdtab s)" using w by simp
    show "?r \<noteq> ?w" using w by auto
    show "0 \<le> ?r" "0 \<le> ?w" by (rule lowest_free_nonneg)+
  qed
qed

lemma sys_open_cases:
  obtains (fail) e where
      "sys_open s p m = (s\<lparr>errno := e, trace := trace s @ [Sys_open p m (- 1)]\<rparr>, - 1)"
  | (ok) n fs where
      "sys_open s p m =
         (s\<lparr>fdtab := fdtab s @ [(n, File p m)], files := fs, trace := trace s @ [Sys_open p m n]\<rparr>, n)"
      "n \<notin> fst ` set (fdtab s)" "0 \<le> n"
proof -
  let ?n = "lowest_free (map fst (fdtab s))"
  have n: "?n \<notin> set (map fst (fdtab s))" by (rule lowest_free_fresh)
  consider "p \<notin> set (files s) \<and> m AND O_CREAT = 0"
    | "\<not> (p \<notin> set (files s) \<and> m AND O_CREAT = 0)" "fd_limit s \<le> ?n"
    | "\<not> (p \<notin> set (files s) \<and> m AND O_CREAT = 0)" "\<not> fd_limit s \<le> ?n" by blast
  then show ?thesis
  proof cases
    case 1
    then show ?thesis by (intro fail[of ENOENT]) (simp add: sys_open_def Let_def)
  next
    case 2
    then show ?thesis by (intro fail[of EMFILE]) (auto simp: sys_open_def Let_def)
  next
    case 3
    show ?thesis
    proof (rule ok[of ?n "if p \<in> set (files s) then files s else files s @ [p]"])
      show "sys_open s p m =
         (s\<lparr>fdtab := fdtab s @ [(?n, File p m)],
            files := (if p \<in> set (files s) then files s else files s @ [p]),
            trace := trace s @ [Sys_open p m ?n]\<rparr>, ?n)"
        using 3 by (auto simp: sys_open_def Let_def)
      show "?n \<notin> fst ` set (fdtab s)" using n by simp
      show "0 \<le> ?n" by (rule lowest_free_nonneg)
    qed
  qed
qed

lemma sys_write_silent: "sys_write s n buf = (s', len) \<Longrightarrow> silent s s'"
  by (auto simp: sys_write_def silent_def split: list.splits write_result.splits)

lemma sys_read_silent: "sys_read s n k = (s', len, buf) \<Longrightarrow> silent s s'"
  by (auto simp: sys_read_def silent_def split: list.splits read_result.splits)

lemma silent_refl [simp]: "silent s s"
  by (simp add: silent_def)

lemma silent_trans: "silent s s' \<Longrightarrow> silent s' s'' \<Longrightarrow> silent s s''"
  by (auto simp: silent_def)

lemma write_loop_silent: "write_loop s n rest = Inr s' \<Longrightarrow> silent s s'"
proof (induction s n rest rule: write_loop.induct)
  case (1 s n rest)
  show ?case
  proof (cases "0 < length rest")
    case False
    with "1.prems" show ?thesis by (simp add: write_loop.simps[of s n rest])
  next
    case True
    obtain s1 len where w: "sys_write s n rest = (s1, len)" by (cases "sys_write s n rest")
    with True "1.prems" have len: "0 \<le> len" and rec: "write_loop s1 n (drop (nat len) rest) = Inr s'"
      by (auto simp: write_loop.simps[of s n rest] split: if_splits)
    from "1.IH"[OF True w[symmetric] len rec] sys_write_silent[OF w] show ?thesis
      by (blast intro: silent_trans)
  qed
qed

lemma read_loop_silent: "read_loop s n out = (s', len, res) \<Longrightarrow> silent s s'"
proof (induction s n out rule: read_loop.induct)
  case (1 s n out)
  obtain s1 l buf where r: "sys_read s n 2048 = (s1, l, buf)" by (cases "sys_read s n 2048") auto
  show ?case
  proof (cases "0 < l")
    case True
    with r "1.prems" have rec: "read_loop s1 n (out @ buf) = (s', len, res)"
      by (simp add: read_loop.simps[of s n out])
    from "1.IH"[OF r[symmetric] refl True rec] sys_read_silent[OF r] show ?thesis
      by (blast intro: silent_trans)
  next
    case False
    with r "1.prems" have "s' = s1" by (simp add: read_loop.simps[of s n out])
    with sys_read_silent[OF r] show ?thesis by simp
  qed
qed

lemma idescriptor_read_total:
  "a < length (heap s) \<Longrightarrow> \<exists>s' out. idescriptor_read s a = Inr (s', out) \<and> silent s s'"
proof -
  assume a: "a < length (heap s)"
  obtain s1 l res where r: "read_loop s (fd (heap s ! a)) [] = (s1, l, res)"
    by (cases "read_loop s (fd (heap s ! a)) []") auto
  from read_loop_silent[OF r] a r show ?thesis
    by (auto simp: idescriptor_read_def)
qed

lemma idescriptor_read_silent: "idescriptor_read s a = Inr (s', out) \<Longrightarrow> silent s s'"
  using idescriptor_read_total[of a s] by (cases "a < length (heap s)") (auto simp: idescriptor_read_def)

subsection \<open>Objects\<close>

lemma nth_upd: "h[a := x] ! b = (if a = b \<and> a < length h then x else h ! b)"
  by (cases "a < length h") (auto simp: nth_list_update list_update_beyond)

lemma closable_iff: "closable d \<longleftrightarrow> dtype d \<noteq> Descriptor \<and> 0 \<le> fd d"
  by (simp add: closable_def split: dyn_type.splits)

lemma closable_fd_update [simp]: "closable (d\<lparr>fd := n\<rparr>) \<longleftrightarrow> dtype d \<noteq> Descriptor \<and> 0 \<le> n"
  by (simp add: closable_iff)

lemma map_static_update [simp]:
  "map (\<lambda>d. d\<lparr>fd := 0\<rparr>) (h[a := (h ! a)\<lparr>fd := n\<rparr>]) = map (\<lambda>d. d\<lparr>fd := 0\<rparr>) h"
  by (auto simp: list_eq_iff_nth_eq nth_upd)

lemma static_same:
  assumes "map (\<lambda>d. d\<lparr>fd := 0\<rparr>) h' = map (\<lambda>d. d\<lparr>fd := 0\<rparr>) h" "a < length h"
  shows "dtype (h' ! a) = dtype (h ! a)" "linked_fd (h' ! a) = linked_fd (h ! a)"
    "member_pipe (h' ! a) = member_pipe (h ! a)" "path (h' ! a) = path (h ! a)"
    "mode (h' ! a) = mode (h ! a)"
proof -
  from assms have len: "length h' = length h" by (metis length_map)
  from assms len have "(h' ! a)\<lparr>fd := 0\<rparr> = (h ! a)\<lparr>fd := 0\<rparr>"
    by (metis nth_map)
  then have eq: "\<And>f. f ((h' ! a)\<lparr>fd := 0\<rparr>) = f ((h ! a)\<lparr>fd := 0\<rparr>)" by simp
  from eq[of dtype] show "dtype (h' ! a) = dtype (h ! a)" by simp
  from eq[of linked_fd] show "linked_fd (h' ! a) = linked_fd (h ! a)" by simp
  from eq[of member_pipe] show "member_pipe (h' ! a) = member_pipe (h ! a)" by simp
  from eq[of path] show "path (h' ! a) = path (h ! a)" by simp
  from eq[of mode] show "mode (h' ! a) = mode (h ! a)" by simp
qed

subsection \<open>Steps\<close>

lemma io_step_refl [simp]: "io_step s s"
  by (simp add: io_step_def)

lemma io_step_trans: "io_step s s' \<Longrightarrow> io_step s' s'' \<Longrightarrow> io_step s s''"
  by (auto simp: io_step_def)

lemma silent_io_step: "silent s s' \<Longrightarrow> io_step s s'"
  by (auto simp: silent_def io_step_def)

lemma io_step_length: "io_step s s' \<Longrightarrow> length (heap s') = length (heap s)"
  unfolding io_step_def by (metis length_map)

lemma io_step_dtype: "io_step s s' \<Longrightarrow> a < length (heap s) \<Longrightarrow> dtype (heap s' ! a) = dtype (heap s ! a)"
  unfolding io_step_def by (blast intro: static_same(1))

lemma io_step_set_fd: "io_step s s' \<Longrightarrow> io_step s (set_fd s' a n)"
  by (auto simp: io_step_def)

lemma io_step_sys_close: "io_step s s' \<Longrightarrow> io_step s (sys_close s' n)"
  by (auto simp: io_step_def)

lemma sys_pipe_io_step: "sys_pipe s = (s', r) \<Longrightarrow> io_step s s'"
  by (rule sys_pipe_cases[of s]) (auto simp: io_step_def)

lemma sys_open_io_step: "sys_open s p m = (s', n) \<Longrightarrow> io_step s s'"
  by (rule sys_open_cases[of s p m]) (auto simp: io_step_def)

subsection \<open>Ownership of file descriptors\<close>

lemma owned_mono: "owned h F \<Longrightarrow> F \<subseteq> F' \<Longrightarrow> owned h F'"
  unfolding owned_def by blast

lemma owned_open:
  assumes "owned h F" "n \<notin> F" "0 \<le> n"
  shows "owned (h[a := (h ! a)\<lparr>fd := n\<rparr>]) (insert n F)"
  unfolding owned_def
proof (intro conjI allI impI)
  fix b assume "b < length (h[a := (h ! a)\<lparr>fd := n\<rparr>])"
  then show "- 1 \<le> fd (h[a := (h ! a)\<lparr>fd := n\<rparr>] ! b)"
    using assms by (auto simp: owned_def nth_upd)
next
  fix b assume "b < length (h[a := (h ! a)\<lparr>fd := n\<rparr>])" "closable (h[a := (h ! a)\<lparr>fd := n\<rparr>] ! b)"
  then show "fd (h[a := (h ! a)\<lparr>fd := n\<rparr>] ! b) \<in> insert n F"
    using assms by (auto simp: owned_def nth_upd split: if_splits)
next
  fix b c
  assume "b < length (h[a := (h ! a)\<lparr>fd := n\<rparr>])" "c < length (h[a := (h ! a)\<lparr>fd := n\<rparr>])"
    "closable (h[a := (h ! a)\<lparr>fd := n\<rparr>] ! b) \<and> closable (h[a := (h ! a)\<lparr>fd := n\<rparr>] ! c) \<and>
     fd (h[a := (h ! a)\<lparr>fd := n\<rparr>] ! b) = fd (h[a := (h ! a)\<lparr>fd := n\<rparr>] ! c)"
  then show "b = c"
    using assms unfolding owned_def by (simp add: nth_upd split: if_splits) metis+
qed

lemma owned_reset:
  assumes "owned h F"
  shows "owned (h[a := (h ! a)\<lparr>fd := - 1\<rparr>]) F"
  using assms unfolding owned_def
  by (auto simp: nth_upd split: if_splits)

lemma owned_close:
  assumes "owned h F" "a < length h" "closable (h ! a)"
  shows "owned (h[a := (h ! a)\<lparr>fd := - 1\<rparr>]) (F - {fd (h ! a)})"
  unfolding owned_def
proof (intro conjI allI impI)
  fix b assume "b < length (h[a := (h ! a)\<lparr>fd := - 1\<rparr>])"
  then show "- 1 \<le> fd (h[a := (h ! a)\<lparr>fd := - 1\<rparr>] ! b)"
    using assms by (auto simp: owned_def nth_upd)
next
  fix b assume b: "b < length (h[a := (h ! a)\<lparr>fd := - 1\<rparr>])" "closable (h[a := (h ! a)\<lparr>fd := - 1\<rparr>] ! b)"
  then have ne: "b \<noteq> a" by (auto simp: nth_upd split: if_splits)
  with b have cb: "b < length h" "closable (h ! b)" by simp_all
  with assms ne have "fd (h ! b) \<in> F" "fd (h ! b) \<noteq> fd (h ! a)"
    unfolding owned_def by blast+
  with ne show "fd (h[a := (h ! a)\<lparr>fd := - 1\<rparr>] ! b) \<in> F - {fd (h ! a)}" by simp
next
  fix b c
  assume "b < length (h[a := (h ! a)\<lparr>fd := - 1\<rparr>])" "c < length (h[a := (h ! a)\<lparr>fd := - 1\<rparr>])"
    "closable (h[a := (h ! a)\<lparr>fd := - 1\<rparr>] ! b) \<and> closable (h[a := (h ! a)\<lparr>fd := - 1\<rparr>] ! c) \<and>
     fd (h[a := (h ! a)\<lparr>fd := - 1\<rparr>] ! b) = fd (h[a := (h ! a)\<lparr>fd := - 1\<rparr>] ! c)"
  then show "b = c"
    using assms(1) unfolding owned_def by (simp add: nth_upd split: if_splits)
qed

lemma silent_ownership: "silent s s' \<Longrightarrow> fd_ownership s' = fd_ownership s"
  by (simp add: silent_def fd_ownership_def)

lemma silent_open_fds: "silent s s' \<Longrightarrow> open_fds s' = open_fds s"
  by (simp add: silent_def open_fds_def)

subsection \<open>Closing steps\<close>

lemma closing_open_fds_subset:
  assumes "closing s s'"
  shows "open_fds s' \<subseteq> open_fds s"
proof
  fix x assume "x \<in> open_fds s'"
  then obtain b where b: "b < length (heap s')" "closable (heap s' ! b)" "x = fd (heap s' ! b)"
    unfolding open_fds_def by blast
  from assms have len: "length (heap s') = length (heap s)"
    and keep: "\<And>b. b < length (heap s) \<Longrightarrow> closable (heap s' ! b) \<Longrightarrow>
        closable (heap s ! b) \<and> fd (heap s' ! b) = fd (heap s ! b)"
    unfolding closing_def by blast+
  from b len keep[of b] have "b < length (heap s)" "closable (heap s ! b)" "x = fd (heap s ! b)"
    by simp_all
  then show "x \<in> open_fds s" unfolding open_fds_def by blast
qed

lemma closing_refl [simp]: "closing s s"
  unfolding closing_def by (auto intro: exI[of _ "[]"])

lemma closing_trans:
  assumes "closing s s'" "closing s' s''"
  shows "closing s s''"
proof -
  from assms obtain e1 e2 where
    e1: "trace s' = trace s @ e1" "distinct (closes e1)" "set (closes e1) = open_fds s - open_fds s'" and
    e2: "trace s'' = trace s' @ e2" "distinct (closes e2)" "set (closes e2) = open_fds s' - open_fds s''"
    unfolding closing_def by blast
  have sub: "open_fds s' \<subseteq> open_fds s" "open_fds s'' \<subseteq> open_fds s'"
    using assms by (auto dest: closing_open_fds_subset)
  have "trace s'' = trace s @ (e1 @ e2)" using e1 e2 by simp
  moreover have "distinct (closes (e1 @ e2))"
    unfolding closes_append distinct_append e1(3) e2(3) using e1(2) e2(2) by blast
  moreover have "set (closes (e1 @ e2)) = open_fds s - open_fds s''"
    using sub unfolding closes_append set_append e1(3) e2(3) by blast
  moreover have "length (heap s'') = length (heap s)"
    using assms by (simp add: closing_def)
  moreover have "\<forall>b < length (heap s). closable (heap s'' ! b) \<longrightarrow>
        closable (heap s ! b) \<and> fd (heap s'' ! b) = fd (heap s ! b)"
  proof (intro allI impI)
    fix b assume b: "b < length (heap s)" "closable (heap s'' ! b)"
    from assms(1) have len: "length (heap s') = length (heap s)" by (simp add: closing_def)
    from assms(2) b len have 2: "closable (heap s' ! b) \<and> fd (heap s'' ! b) = fd (heap s' ! b)"
      unfolding closing_def by simp
    with assms(1) b have "closable (heap s ! b) \<and> fd (heap s' ! b) = fd (heap s ! b)"
      unfolding closing_def by simp
    with 2 show "closable (heap s ! b) \<and> fd (heap s'' ! b) = fd (heap s ! b)" by simp
  qed
  ultimately show ?thesis unfolding closing_def by blast
qed

lemma silent_closing: "silent s s' \<Longrightarrow> closing s s'"
  unfolding closing_def using silent_open_fds[of s s'] by (auto simp: silent_def)

lemma open_fds_close:
  assumes "owned (heap s) F" "a < length (heap s)" "closable (heap s ! a)"
    "heap s' = (heap s)[a := (heap s ! a)\<lparr>fd := - 1\<rparr>]"
  shows "open_fds s' = open_fds s - {fd (heap s ! a)}"
proof (intro set_eqI iffI)
  fix x assume "x \<in> open_fds s'"
  then obtain b where b: "b < length (heap s)" "closable (heap s' ! b)" "x = fd (heap s' ! b)"
    using assms(4) by (auto simp: open_fds_def)
  with assms(4) have ne: "b \<noteq> a" by (auto simp: nth_upd split: if_splits)
  with b assms(4) have "closable (heap s ! b)" "x = fd (heap s ! b)" by (simp_all add: nth_upd)
  moreover from this ne b assms have "x \<noteq> fd (heap s ! a)" unfolding owned_def by blast
  ultimately show "x \<in> open_fds s - {fd (heap s ! a)}" using b by (auto simp: open_fds_def)
next
  fix x assume "x \<in> open_fds s - {fd (heap s ! a)}"
  then obtain b where b: "b < length (heap s)" "closable (heap s ! b)" "x = fd (heap s ! b)"
    "x \<noteq> fd (heap s ! a)" by (auto simp: open_fds_def)
  then have "b \<noteq> a" by auto
  with b assms(4) show "x \<in> open_fds s'" by (auto simp: open_fds_def nth_upd intro!: exI[of _ b])
qed

text \<open>The effect of \<^verbatim>\<open>::close(fd()); fd_ = -1;\<close> on an open object.\<close>

lemma close_one:
  assumes "a < length (heap s)" "closable (heap s ! a)"
    and s': "s' = set_fd (sys_close s (fd (heap s ! a))) a (- 1)"
  shows "io_step s s'" "\<not> closable (heap s' ! a)" "fd (heap s' ! a) = - 1"
    "fd_ownership s \<Longrightarrow> fd_ownership s'" "fd_ownership s \<Longrightarrow> closing s s'"
proof -
  show "io_step s s'" unfolding s' by (intro io_step_set_fd io_step_sys_close) simp
  show "\<not> closable (heap s' ! a)" "fd (heap s' ! a) = - 1" using assms(1) by (simp_all add: s')
  have F: "fst ` set (fdtab s') = fst ` set (fdtab s) - {fd (heap s ! a)}"
    by (auto simp: s')
  have h: "heap s' = (heap s)[a := (heap s ! a)\<lparr>fd := - 1\<rparr>]" by (simp add: s')
  show "fd_ownership s'" if "fd_ownership s"
    using that owned_close[OF _ assms(1,2)] unfolding fd_ownership_def F h by simp
  show "closing s s'" if "fd_ownership s"
  proof -
    from that have o: "owned (heap s) (fst ` set (fdtab s))" by (simp add: fd_ownership_def)
    have of: "open_fds s' = open_fds s - {fd (heap s ! a)}"
      by (rule open_fds_close[OF o assms(1,2) h])
    have mem: "fd (heap s ! a) \<in> open_fds s" using assms(1,2) by (auto simp: open_fds_def)
    have tr: "trace s' = trace s @ [Sys_close (fd (heap s ! a))]" by (simp add: s')
    have "distinct (closes [Sys_close (fd (heap s ! a))])"
      "set (closes [Sys_close (fd (heap s ! a))]) = open_fds s - open_fds s'"
      using of mem by auto
    moreover have "\<forall>b < length (heap s). closable (heap s' ! b) \<longrightarrow>
        closable (heap s ! b) \<and> fd (heap s' ! b) = fd (heap s ! b)"
      by (auto simp: h nth_upd split: if_splits)
    moreover have "length (heap s') = length (heap s)" by (simp add: h)
    ultimately show ?thesis using tr unfolding closing_def by blast
  qed
qed

lemma odescriptor_close_cases:
  assumes "odescriptor_close s a = Inr s'"
  obtains (was_closed) "a < length (heap s)" "\<not> closable (heap s ! a)" "s' = s"
  | (was_open) "a < length (heap s)" "closable (heap s ! a)"
      "s' = set_fd (sys_close s (fd (heap s ! a))) a (- 1)"
  using assms by (auto simp: odescriptor_close_def split: if_splits)

lemma idescriptor_close_eq: "idescriptor_close s a = odescriptor_close s a"
  by (simp add: idescriptor_close_def odescriptor_close_def)

lemma odescriptor_close_props:
  assumes "odescriptor_close s a = Inr s'"
  shows "io_step s s'" "\<not> closable (heap s' ! a)" "a < length (heap s)"
    "fd_ownership s \<Longrightarrow> fd_ownership s'" "fd_ownership s \<Longrightarrow> closing s s'"
    "fd (heap s ! b) = - 1 \<Longrightarrow> fd (heap s' ! b) = - 1"
proof -
  show "io_step s s'"
    using assms by (rule odescriptor_close_cases) (simp_all add: close_one(1))
  show "\<not> closable (heap s' ! a)"
    using assms by (rule odescriptor_close_cases) (simp_all add: close_one(2))
  show "a < length (heap s)"
    using assms by (rule odescriptor_close_cases)
  show "fd_ownership s'" if "fd_ownership s"
    using assms by (rule odescriptor_close_cases) (simp_all add: that close_one(4))
  show "closing s s'" if "fd_ownership s"
    using assms by (rule odescriptor_close_cases) (simp_all add: that close_one(5))
  show "fd (heap s' ! b) = - 1" if "fd (heap s ! b) = - 1"
    using assms by (rule odescriptor_close_cases) (simp_all add: that nth_upd)
qed

lemma ovariable_descriptor_read_silent:
  "ovariable_descriptor_read s a = Inr s' \<Longrightarrow> silent s s'"
  by (auto simp: ovariable_descriptor_read_def silent_def split: if_splits sum.splits
      dest!: idescriptor_read_silent)

lemma set_fd_same: "a < length (heap s) \<Longrightarrow> set_fd s a (fd (heap s ! a)) = s"
  by (simp add: set_fd_def)

lemma ovariable_descriptor_close_props:
  assumes "ovariable_descriptor_close s a = Inr s'"
  shows "io_step s s'" "\<not> closable (heap s' ! a)" "a < length (heap s)"
    "fd_ownership s \<Longrightarrow> fd_ownership s'" "fd_ownership s \<Longrightarrow> closing s s'"
proof -
  from assms show a: "a < length (heap s)"
    by (auto simp: ovariable_descriptor_close_def split: if_splits)
  have "io_step s s' \<and> \<not> closable (heap s' ! a) \<and>
        (fd_ownership s \<longrightarrow> fd_ownership s' \<and> closing s s')"
  proof (cases "closable (heap s ! a)")
    case False
    with assms a have "s' = s" by (simp add: ovariable_descriptor_close_def)
    with False show ?thesis by simp
  next
    case True
    with assms a obtain s1 s2 s3 where
      1: "odescriptor_close s a = Inr s1" and
      2: "ovariable_descriptor_read s1 a = Inr s2" and
      3: "idescriptor_close s2 (member_pipe (heap s2 ! a)) = Inr s3" and
      4: "s' = set_fd s3 a (- 1)"
      by (auto simp: ovariable_descriptor_close_def split: sum.splits)
    note p1 = odescriptor_close_props[OF 1]
    note p3 = odescriptor_close_props[OF 3[unfolded idescriptor_close_eq]]
    have s2: "silent s1 s2" by (rule ovariable_descriptor_read_silent[OF 2])
    have f1: "fd (heap s1 ! a) = - 1"
      using 1 True a by (auto simp: odescriptor_close_def split: if_splits)
    have h2: "heap s2 = heap s1" using s2 by (simp add: silent_def)
    have f3: "fd (heap s3 ! a) = - 1" using f1 h2 by (intro p3(6)) simp
    have len: "length (heap s3) = length (heap s)"
      using io_step_length[OF p1(1)] io_step_length[OF p3(1)] h2 by simp
    have "set_fd s3 a (fd (heap s3 ! a)) = s3" using a len by (intro set_fd_same) simp
    then have eq: "s' = s3" unfolding 4 f3 .
    have "io_step s s3"
      using p1(1) silent_io_step[OF s2] p3(1) by (blast intro: io_step_trans)
    moreover have "\<not> closable (heap s3 ! a)" using f3 by (simp add: closable_iff)
    moreover have "fd_ownership s3 \<and> closing s s3" if "fd_ownership s"
    proof -
      have o1: "fd_ownership s1" by (rule p1(4)[OF that])
      have o2: "fd_ownership s2" using o1 silent_ownership[OF s2] by simp
      have "closing s s1" by (rule p1(5)[OF that])
      moreover have "closing s1 s2" by (rule silent_closing[OF s2])
      moreover have "closing s2 s3" by (rule p3(5)[OF o2])
      ultimately show ?thesis using p3(4)[OF o2] by (blast intro: closing_trans)
    qed
    ultimately show ?thesis unfolding eq by blast
  qed
  then show "io_step s s'" "\<not> closable (heap s' ! a)"
    "fd_ownership s \<Longrightarrow> fd_ownership s'" "fd_ownership s \<Longrightarrow> closing s s'"
    by blast+
qed

lemma descriptor_close_props:
  assumes "descriptor_close s a = Inr s'"
  shows "io_step s s'" "\<not> closable (heap s' ! a)" "a < length (heap s)"
    "fd_ownership s \<Longrightarrow> fd_ownership s'" "fd_ownership s \<Longrightarrow> closing s s'"
proof -
  from assms show a: "a < length (heap s)"
    by (auto simp: descriptor_close_def split: if_splits)
  show "io_step s s'"
    using assms a
    by (cases "dtype (heap s ! a)")
       (simp_all add: descriptor_close_def idescriptor_close_eq
          odescriptor_close_props(1) ovariable_descriptor_close_props(1))
  show "\<not> closable (heap s' ! a)"
    using assms a
    by (cases "dtype (heap s ! a)")
       (simp_all add: descriptor_close_def idescriptor_close_eq closable_iff
          odescriptor_close_props(2)[unfolded closable_iff]
          ovariable_descriptor_close_props(2)[unfolded closable_iff])
  show "fd_ownership s'" if "fd_ownership s"
    using assms a that
    by (cases "dtype (heap s ! a)")
       (simp_all add: descriptor_close_def idescriptor_close_eq
          odescriptor_close_props(4) ovariable_descriptor_close_props(4))
  show "closing s s'" if "fd_ownership s"
    using assms a that
    by (cases "dtype (heap s ! a)")
       (simp_all add: descriptor_close_def idescriptor_close_eq
          odescriptor_close_props(5) ovariable_descriptor_close_props(5))
qed

subsection \<open>Opening\<close>

lemma file_descriptor_open_props:
  assumes "file_descriptor_open s a = Inr s'"
  shows "io_step s s'" "a < length (heap s)" "fd_ownership s \<Longrightarrow> fd_ownership s'"
proof -
  from assms show a: "a < length (heap s)"
    by (auto simp: file_descriptor_open_def split: if_splits)
  have "io_step s s' \<and> (fd_ownership s \<longrightarrow> fd_ownership s')"
  proof (cases "0 < fd (heap s ! a)")
    case True
    with assms a show ?thesis by (simp add: file_descriptor_open_def)
  next
    case False
    show ?thesis
    proof (rule sys_open_cases[of s "path (heap s ! a)" "mode (heap s ! a)"])
      fix e assume "sys_open s (path (heap s ! a)) (mode (heap s ! a)) =
        (s\<lparr>errno := e, trace := trace s @ [Sys_open (path (heap s ! a)) (mode (heap s ! a)) (- 1)]\<rparr>, - 1)"
      with assms a False show ?thesis by (simp add: file_descriptor_open_def)
    next
      fix n fs
      assume o: "sys_open s (path (heap s ! a)) (mode (heap s ! a)) =
         (s\<lparr>fdtab := fdtab s @ [(n, File (path (heap s ! a)) (mode (heap s ! a)))], files := fs,
            trace := trace s @ [Sys_open (path (heap s ! a)) (mode (heap s ! a)) n]\<rparr>, n)"
        and n: "n \<notin> fst ` set (fdtab s)" "0 \<le> n"
      from assms a False o n have s': "s' = set_fd (s\<lparr>fdtab := fdtab s @ [(n, File (path (heap s ! a)) (mode (heap s ! a)))], files := fs,
            trace := trace s @ [Sys_open (path (heap s ! a)) (mode (heap s ! a)) n]\<rparr>) a n"
        by (simp add: file_descriptor_open_def)
      have "io_step s s'" unfolding s' by (auto simp: io_step_def)
      moreover have "fd_ownership s'" if "fd_ownership s"
        using owned_open[OF that[unfolded fd_ownership_def] n, of a]
        by (simp add: s' fd_ownership_def)
      ultimately show ?thesis by blast
    qed
  qed
  then show "io_step s s'" "fd_ownership s \<Longrightarrow> fd_ownership s'" by blast+
qed

text \<open>The two pipe ends store the two new file descriptors, in either order.\<close>

lemma pipe_stores:
  assumes "owned (heap s) (fst ` set (fdtab s))" "r \<notin> fst ` set (fdtab s)" "w \<notin> fst ` set (fdtab s)"
    "r \<noteq> w" "0 \<le> r" "0 \<le> w"
    and s': "s' = set_fd (set_fd (s\<lparr>fdtab := fdtab s @ [(r, R), (w, W)], pipes := k, trace := trace s @ [ev]\<rparr>) a x) b y"
    and xy: "x = r \<and> y = w \<or> x = w \<and> y = r"
  shows "fd_ownership s'"
proof -
  let ?F = "fst ` set (fdtab s)"
  from xy have x: "x \<notin> ?F" "0 \<le> x" and y: "y \<notin> insert x ?F" "0 \<le> y"
    using assms(2-6) by auto
  have F: "fst ` set (fdtab s') = insert y (insert x ?F)" using xy by (auto simp: s')
  have "owned ((heap s)[a := (heap s ! a)\<lparr>fd := x\<rparr>]) (insert x ?F)"
    by (rule owned_open[OF assms(1) x])
  from owned_open[OF this y, of b] show ?thesis
    unfolding fd_ownership_def F by (simp add: s')
qed

lemma opipe_descriptor_open_props:
  assumes "opipe_descriptor_open s a = Inr s'"
  shows "io_step s s'" "a < length (heap s)" "fd_ownership s \<Longrightarrow> fd_ownership s'"
proof -
  from assms show a: "a < length (heap s)"
    by (auto simp: opipe_descriptor_open_def split: if_splits)
  have "io_step s s' \<and> (fd_ownership s \<longrightarrow> fd_ownership s')"
  proof (cases "closable (heap s ! a)")
    case True
    with assms a show ?thesis by (simp add: opipe_descriptor_open_def)
  next
    case False
    show ?thesis
    proof (rule sys_pipe_cases[of s])
      assume "sys_pipe s = (s\<lparr>errno := EMFILE, trace := trace s @ [Sys_pipe None]\<rparr>, None)"
      with assms a False show ?thesis by (simp add: opipe_descriptor_open_def)
    next
      fix r w
      assume p: "sys_pipe s =
         (s\<lparr>fdtab := fdtab s @ [(r, Pipe_read (pipes s)), (w, Pipe_write (pipes s))],
            pipes := Suc (pipes s), trace := trace s @ [Sys_pipe (Some (r, w))]\<rparr>, Some (r, w))"
        and rw: "r \<notin> fst ` set (fdtab s)" "w \<notin> fst ` set (fdtab s)" "r \<noteq> w" "0 \<le> r" "0 \<le> w"
      from assms a False p obtain l where
        s': "s' = set_fd (set_fd (s\<lparr>fdtab := fdtab s @ [(r, Pipe_read (pipes s)), (w, Pipe_write (pipes s))],
            pipes := Suc (pipes s), trace := trace s @ [Sys_pipe (Some (r, w))]\<rparr>) l r) a w"
        by (auto simp: opipe_descriptor_open_def split: option.splits if_splits)
      have "io_step s s'" unfolding s' by (auto simp: io_step_def)
      moreover have "fd_ownership s'" if "fd_ownership s"
        by (rule pipe_stores[OF that[unfolded fd_ownership_def] rw s']) simp
      ultimately show ?thesis by blast
    qed
  qed
  then show "io_step s s'" "fd_ownership s \<Longrightarrow> fd_ownership s'" by blast+
qed

lemma ipipe_descriptor_open_props:
  assumes "ipipe_descriptor_open s a = Inr s'"
  shows "io_step s s'" "a < length (heap s)" "fd_ownership s \<Longrightarrow> fd_ownership s'"
proof -
  from assms show a: "a < length (heap s)"
    by (auto simp: ipipe_descriptor_open_def split: if_splits)
  have "io_step s s' \<and> (fd_ownership s \<longrightarrow> fd_ownership s')"
  proof (cases "closable (heap s ! a)")
    case True
    with assms a show ?thesis by (simp add: ipipe_descriptor_open_def)
  next
    case False
    show ?thesis
    proof (rule sys_pipe_cases[of s])
      assume "sys_pipe s = (s\<lparr>errno := EMFILE, trace := trace s @ [Sys_pipe None]\<rparr>, None)"
      with assms a False show ?thesis by (simp add: ipipe_descriptor_open_def)
    next
      fix r w
      assume p: "sys_pipe s =
         (s\<lparr>fdtab := fdtab s @ [(r, Pipe_read (pipes s)), (w, Pipe_write (pipes s))],
            pipes := Suc (pipes s), trace := trace s @ [Sys_pipe (Some (r, w))]\<rparr>, Some (r, w))"
        and rw: "r \<notin> fst ` set (fdtab s)" "w \<notin> fst ` set (fdtab s)" "r \<noteq> w" "0 \<le> r" "0 \<le> w"
      from assms a False p obtain l where
        s': "s' = set_fd (set_fd (s\<lparr>fdtab := fdtab s @ [(r, Pipe_read (pipes s)), (w, Pipe_write (pipes s))],
            pipes := Suc (pipes s), trace := trace s @ [Sys_pipe (Some (r, w))]\<rparr>) a r) l w"
        by (auto simp: ipipe_descriptor_open_def split: option.splits if_splits)
      have "io_step s s'" unfolding s' by (auto simp: io_step_def)
      moreover have "fd_ownership s'" if "fd_ownership s"
        by (rule pipe_stores[OF that[unfolded fd_ownership_def] rw s']) simp
      ultimately show ?thesis by blast
    qed
  qed
  then show "io_step s s'" "fd_ownership s \<Longrightarrow> fd_ownership s'" by blast+
qed

lemma ivariable_descriptor_write_silent:
  "ivariable_descriptor_write s a = Inr s' \<Longrightarrow> silent s s'"
  by (auto simp: ivariable_descriptor_write_def odescriptor_write_def split: if_splits
      dest: write_loop_silent)

lemma ivariable_descriptor_open_props:
  assumes "ivariable_descriptor_open s a = Inr s'"
  shows "io_step s s'" "a < length (heap s)" "fd_ownership s \<Longrightarrow> fd_ownership s'"
proof -
  from assms show a: "a < length (heap s)"
    by (auto simp: ivariable_descriptor_open_def split: if_splits)
  have "io_step s s' \<and> (fd_ownership s \<longrightarrow> fd_ownership s')"
  proof (cases "closable (heap s ! a)")
    case True
    with assms a show ?thesis by (simp add: ivariable_descriptor_open_def)
  next
    case False
    with assms a obtain s1 s2 where
      1: "ipipe_descriptor_open s a = Inr s1" and
      2: "ivariable_descriptor_write s1 a = Inr s2" and
      3: "odescriptor_close s2 (member_pipe (heap s2 ! a)) = Inr s'"
      by (auto simp: ivariable_descriptor_open_def split: sum.splits)
    note p1 = ipipe_descriptor_open_props[OF 1]
    note p2 = ivariable_descriptor_write_silent[OF 2]
    note p3 = odescriptor_close_props[OF 3]
    have "io_step s s'"
      using p1(1) silent_io_step[OF p2] p3(1) by (blast intro: io_step_trans)
    moreover have "fd_ownership s'" if "fd_ownership s"
      using p1(3)[OF that] silent_ownership[OF p2] p3(4) by simp
    ultimately show ?thesis by blast
  qed
  then show "io_step s s'" "fd_ownership s \<Longrightarrow> fd_ownership s'" by blast+
qed

lemma descriptor_open_props:
  assumes "descriptor_open s a = Inr s'"
  shows "io_step s s'" "a < length (heap s)" "fd_ownership s \<Longrightarrow> fd_ownership s'"
proof -
  from assms show a: "a < length (heap s)"
    by (auto simp: descriptor_open_def split: if_splits)
  show "io_step s s'" "fd_ownership s \<Longrightarrow> fd_ownership s'"
    using assms a
    by (cases "dtype (heap s ! a)";
        simp add: descriptor_open_def file_descriptor_open_props opipe_descriptor_open_props
          ipipe_descriptor_open_props ivariable_descriptor_open_props; fail)+
qed

subsection \<open>The parts of execute\<close>

lemma process_fds_props:
  assumes "process_fds s action a dup_to = Inr (s', action')"
  shows "io_step s s'" "a < length (heap s)" "fd_ownership s \<Longrightarrow> fd_ownership s'"
    "action' = dup action (heap s' ! a) dup_to"
  using assms descriptor_open_props[of s a s']
  by (auto simp: process_fds_def split: sum.splits)

lemma file_actions_for_cases:
  assumes "file_actions_for s p = Inr (s3, action)"
  obtains s1 s2 action1 action2 action3 where
    "process_fds s new_posix_spawn_file_actions (stdin_fd p) standard_in = Inr (s1, action1)"
    "process_fds s1 action1 (stdout_fd p) standard_out = Inr (s2, action2)"
    "process_fds s2 action2 (stderr_fd p) standard_error = Inr (s3, action3)"
    "action = close (close (close action3 (heap s3 ! stdin_fd p)) (heap s3 ! stdout_fd p))
                (heap s3 ! stderr_fd p)"
  using assms by (auto simp: file_actions_for_def split: sum.splits)

lemma file_actions_for_props:
  assumes "file_actions_for s p = Inr (s3, action)"
  shows "io_step s s3" "fd_ownership s \<Longrightarrow> fd_ownership s3"
    "stdin_fd p < length (heap s)" "stdout_fd p < length (heap s)" "stderr_fd p < length (heap s)"
proof -
  from assms obtain s1 s2 action1 action2 action3 where
    1: "process_fds s new_posix_spawn_file_actions (stdin_fd p) standard_in = Inr (s1, action1)" and
    2: "process_fds s1 action1 (stdout_fd p) standard_out = Inr (s2, action2)" and
    3: "process_fds s2 action2 (stderr_fd p) standard_error = Inr (s3, action3)"
    by (rule file_actions_for_cases)
  note p1 = process_fds_props[OF 1] and p2 = process_fds_props[OF 2] and p3 = process_fds_props[OF 3]
  show "io_step s s3" using p1(1) p2(1) p3(1) by (blast intro: io_step_trans)
  show "fd_ownership s3" if "fd_ownership s" using that p1(3) p2(3) p3(3) by blast
  show "stdin_fd p < length (heap s)" by (rule p1(2))
  show "stdout_fd p < length (heap s)" using p2(2) io_step_length[OF p1(1)] by simp
  show "stderr_fd p < length (heap s)"
    using p3(2) io_step_length[OF p1(1)] io_step_length[OF p2(1)] by simp
qed

lemma spawn_child_cases:
  assumes "spawn_child s p = Inr (s4, p4)"
  obtains s3 action rc bin args waitstatus where
    "file_actions_for s p = Inr (s3, action)"
    "wordexp_results s (cmd p) = (rc, Some (bin # args))"
    "spawn_results s3 bin = (0, waitstatus)"
    "s4 = s3\<lparr>children := children s3 @ [(waitstatus, False)],
             trace := trace s3 @ [Sys_posix_spawnp (bin # args) (actions action) 0
                                    (int (length (children s3)) + 1)]\<rparr>"
    "p4 = p\<lparr>pid := Some (int (length (children s3)) + 1)\<rparr>"
  using assms
  by (auto simp: spawn_child_def sys_posix_spawnp_def
      split: prod.splits sum.splits option.splits list.splits if_splits)

lemma close_parent_side_cases:
  assumes "close_parent_side s4 p = Inr s7"
  obtains s5 s6 where
    "descriptor_close s4 (stdin_fd p) = Inr s5"
    "descriptor_close s5 (stdout_fd p) = Inr s6"
    "descriptor_close s6 (stderr_fd p) = Inr s7"
  using assms by (auto simp: close_parent_side_def split: sum.splits)

lemma close_parent_side_props:
  assumes "close_parent_side s4 p = Inr s7"
  shows "io_step s4 s7"
    "fd_ownership s4 \<Longrightarrow> fd_ownership s7"
    "fd_ownership s4 \<Longrightarrow> closing s4 s7"
proof -
  from assms obtain s5 s6 where
    1: "descriptor_close s4 (stdin_fd p) = Inr s5" and
    2: "descriptor_close s5 (stdout_fd p) = Inr s6" and
    3: "descriptor_close s6 (stderr_fd p) = Inr s7"
    by (rule close_parent_side_cases)
  note p1 = descriptor_close_props[OF 1] and p2 = descriptor_close_props[OF 2]
    and p3 = descriptor_close_props[OF 3]
  show "io_step s4 s7" using p1(1) p2(1) p3(1) by (blast intro: io_step_trans)
  show "fd_ownership s7" if "fd_ownership s4" using that p1(4) p2(4) p3(4) by blast
  show "closing s4 s7" if "fd_ownership s4"
    using that p1(4,5) p2(4,5) p3(5) by (blast intro: closing_trans)
qed

lemma execute_cases:
  assumes "execute s p = Inr (s', p')"
  obtains s4 where "spawn_child s p = Inr (s4, p')" "close_parent_side s4 p' = Inr s'"
  using assms by (auto simp: execute_def split: sum.splits)

text \<open>What one successful execute does to the children and to the trace.\<close>

lemma execute_props:
  assumes "execute s p = Inr (s', p')"
  obtains rc bin args waitstatus evs evs' acts where
    "wordexp_results s (cmd p) = (rc, Some (bin # args))"
    "spawn_results s bin = (0, waitstatus)"
    "children s' = children s @ [(waitstatus, False)]"
    "p' = p\<lparr>pid := Some (int (length (children s)) + 1)\<rparr>"
    "trace s' = trace s @ evs @
       [Sys_posix_spawnp (bin # args) acts 0 (int (length (children s)) + 1)] @ evs'"
    "calls evs = []" "calls evs' = []"
    "wordexp_results s' = wordexp_results s" "spawn_results s' = spawn_results s"
proof -
  from assms obtain s4 where
    sc: "spawn_child s p = Inr (s4, p')" and cl: "close_parent_side s4 p' = Inr s'"
    by (rule execute_cases)
  from sc obtain s3 action rc bin args waitstatus where
    fa: "file_actions_for s p = Inr (s3, action)" and
    we: "wordexp_results s (cmd p) = (rc, Some (bin # args))" and
    sr: "spawn_results s3 bin = (0, waitstatus)" and
    s4: "s4 = s3\<lparr>children := children s3 @ [(waitstatus, False)],
             trace := trace s3 @ [Sys_posix_spawnp (bin # args) (actions action) 0
                                    (int (length (children s3)) + 1)]\<rparr>" and
    p': "p' = p\<lparr>pid := Some (int (length (children s3)) + 1)\<rparr>"
    by (rule spawn_child_cases)
  from file_actions_for_props(1)[OF fa] obtain evs where
    3: "children s3 = children s" "wordexp_results s3 = wordexp_results s"
      "spawn_results s3 = spawn_results s" "trace s3 = trace s @ evs" "calls evs = []"
    unfolding io_step_def by blast
  from close_parent_side_props(1)[OF cl] obtain evs' where
    7: "children s' = children s4" "wordexp_results s' = wordexp_results s4"
      "spawn_results s' = spawn_results s4" "trace s' = trace s4 @ evs'" "calls evs' = []"
    unfolding io_step_def by blast
  show thesis
  proof (rule that[of rc bin args waitstatus evs "actions action" evs'])
    show "wordexp_results s (cmd p) = (rc, Some (bin # args))" by (rule we)
    show "spawn_results s bin = (0, waitstatus)" using sr 3 by simp
    show "children s' = children s @ [(waitstatus, False)]" using 7 3 by (simp add: s4)
    show "p' = p\<lparr>pid := Some (int (length (children s)) + 1)\<rparr>" using p' 3 by simp
    show "trace s' = trace s @ evs @
       [Sys_posix_spawnp (bin # args) (actions action) 0 (int (length (children s)) + 1)] @ evs'"
      using 7 3 by (simp add: s4)
    show "calls evs = []" "calls evs' = []" by (rule 3 7)+
    show "wordexp_results s' = wordexp_results s" "spawn_results s' = spawn_results s"
      using 7 3 by (simp_all add: s4)
  qed
qed

subsection \<open>The two loops of run\<close>

lemma argv_of_cong:
  "wordexp_results s' = wordexp_results s \<Longrightarrow> argv_of s' p = argv_of s p"
  by (simp add: argv_of_def)

lemma wait_status_of_cong:
  "wordexp_results s' = wordexp_results s \<Longrightarrow> spawn_results s' = spawn_results s \<Longrightarrow>
   wait_status_of s' p = wait_status_of s p"
  by (simp add: wait_status_of_def argv_of_def split: list.splits)

lemma upt_add_Suc: "[k..<k + Suc n] = k # [Suc k..<Suc k + n]"
proof -
  have "k < k + Suc n" by simp
  then have "[k..<k + Suc n] = k # [Suc k..<k + Suc n]" by (rule upt_conv_Cons)
  then show ?thesis by (simp only: add_Suc_right add_Suc)
qed

lemma execute_all_props:
  assumes "execute_all s ps = Inr (s1, ps1)"
  shows "children s1 = children s @ map (\<lambda>p. (wait_status_of s p, False)) ps \<and>
    map pid ps1 = map (\<lambda>i. Some (int i + 1)) [length (children s)..<length (children s) + length ps] \<and>
    wordexp_results s1 = wordexp_results s \<and> spawn_results s1 = spawn_results s \<and>
    (\<exists>evs. trace s1 = trace s @ evs \<and>
       calls evs = map2 (\<lambda>p i. Spawn (argv_of s p) (int i + 1)) ps
                     [length (children s)..<length (children s) + length ps])"
  using assms
proof (induction ps arbitrary: s s1 ps1)
  case Nil
  then show ?case by simp
next
  case (Cons p ps)
  from Cons.prems obtain sa p1 ps2 where
    ex: "execute s p = Inr (sa, p1)" and
    rest: "execute_all sa ps = Inr (s1, ps2)" and
    ps1: "ps1 = p1 # ps2"
    by (auto split: sum.splits)
  from ex obtain rc bin args ws evs evs' acts where
    we: "wordexp_results s (cmd p) = (rc, Some (bin # args))" and
    sr: "spawn_results s bin = (0, ws)" and
    ch: "children sa = children s @ [(ws, False)]" and
    p1: "p1 = p\<lparr>pid := Some (int (length (children s)) + 1)\<rparr>" and
    tr: "trace sa = trace s @ evs @
       [Sys_posix_spawnp (bin # args) acts 0 (int (length (children s)) + 1)] @ evs'" and
    ev: "calls evs = []" "calls evs' = []" and
    same: "wordexp_results sa = wordexp_results s" "spawn_results sa = spawn_results s"
    by (rule execute_props)
  let ?k = "length (children s)"
  have av: "argv_of s p = bin # args" and wsp: "wait_status_of s p = ws"
    by (simp_all add: argv_of_def wait_status_of_def we sr)
  have lk: "length (children sa) = Suc ?k" by (simp add: ch)
  from Cons.IH[OF rest] obtain evs2 where
    ih: "children s1 = children sa @ map (\<lambda>p. (wait_status_of sa p, False)) ps"
      "map pid ps2 = map (\<lambda>i. Some (int i + 1)) [Suc ?k..<Suc ?k + length ps]"
      "wordexp_results s1 = wordexp_results sa" "spawn_results s1 = spawn_results sa"
      "trace s1 = trace sa @ evs2"
      "calls evs2 = map2 (\<lambda>p i. Spawn (argv_of sa p) (int i + 1)) ps [Suc ?k..<Suc ?k + length ps]"
    unfolding lk by blast
  have up: "[?k..<?k + length (p # ps)] = ?k # [Suc ?k..<Suc ?k + length ps]"
    unfolding length_Cons by (rule upt_add_Suc)
  have "children s1 = children s @ map (\<lambda>p. (wait_status_of s p, False)) (p # ps)"
    using ih(1) by (simp add: ch wsp wait_status_of_cong[OF same])
  moreover have "map pid ps1 = map (\<lambda>i. Some (int i + 1)) [?k..<?k + length (p # ps)]"
    unfolding up using ih(2) by (simp add: ps1 p1)
  moreover have "wordexp_results s1 = wordexp_results s" "spawn_results s1 = spawn_results s"
    using ih(3,4) same by simp_all
  moreover have "trace s1 = trace s @ (evs @
       [Sys_posix_spawnp (bin # args) acts 0 (int ?k + 1)] @ evs' @ evs2)"
    using ih(5) tr by simp
  moreover have "calls (evs @ [Sys_posix_spawnp (bin # args) acts 0 (int ?k + 1)] @ evs' @ evs2) =
      map2 (\<lambda>p i. Spawn (argv_of s p) (int i + 1)) (p # ps) [?k..<?k + length (p # ps)]"
    unfolding up using ih(6) ev by (simp add: av argv_of_cong[OF same(1)])
  ultimately show ?case by blast
qed

lemma wait_all_props:
  assumes "map pid ps = map (\<lambda>i. Some (int i + 1)) [k..<k + length ps]"
    and "k + length ps \<le> length (children s)"
    and "\<forall>i < length ps. \<not> snd (children s ! (k + i))"
  shows "\<exists>s' evs.
      wait_all s ps w0 =
        Inr (s', if ps = [] then w0 else WEXITSTATUS (fst (children s ! (k + length ps - 1)))) \<and>
      trace s' = trace s @ evs \<and>
      calls evs = map (\<lambda>i. Reap (int i + 1)) [k..<k + length ps]"
  using assms
proof (induction ps arbitrary: s k w0)
  case Nil
  then show ?case by simp
next
  case (Cons p ps)
  have up: "[k..<k + length (p # ps)] = k # [Suc k..<Suc k + length ps]"
    unfolding length_Cons by (rule upt_add_Suc)
  from Cons.prems(1) have pp: "pid p = Some (int k + 1)"
    and rest: "map pid ps = map (\<lambda>i. Some (int i + 1)) [Suc k..<Suc k + length ps]"
    unfolding up by simp_all
  let ?ws = "fst (children s ! k)"
  let ?s1 = "s\<lparr>children := (children s)[k := (?ws, True)],
                trace := trace s @ [Sys_waitpid (int k + 1) (Some ?ws)]\<rparr>"
  from Cons.prems(2,3) have k: "k < length (children s)" "\<not> snd (children s ! k)"
    by auto
  have nk: "nat (int k + 1) = Suc k" by simp
  have w: "wait s p = Inr (?s1, WEXITSTATUS ?ws)"
    unfolding wait_def sys_waitpid_def pp using k by (simp add: nk)
  have b: "Suc k + length ps \<le> length (children ?s1)" using Cons.prems(2) by simp
  have c: "\<forall>i < length ps. \<not> snd (children ?s1 ! (Suc k + i))"
  proof (intro allI impI)
    fix i assume "i < length ps"
    with Cons.prems(3) have "\<not> snd (children s ! (k + Suc i))" by auto
    then show "\<not> snd (children ?s1 ! (Suc k + i))" by simp
  qed
  from Cons.IH[OF rest b c, of "WEXITSTATUS ?ws"] obtain s' evs where
    ih: "wait_all ?s1 ps (WEXITSTATUS ?ws) =
        Inr (s', if ps = [] then WEXITSTATUS ?ws
                 else WEXITSTATUS (fst (children ?s1 ! (Suc k + length ps - 1))))"
      "trace s' = trace ?s1 @ evs"
      "calls evs = map (\<lambda>i. Reap (int i + 1)) [Suc k..<Suc k + length ps]"
    by blast
  have last: "(if ps = [] then WEXITSTATUS ?ws
               else WEXITSTATUS (fst (children ?s1 ! (Suc k + length ps - 1)))) =
              WEXITSTATUS (fst (children s ! (k + length (p # ps) - 1)))"
    by (cases ps) simp_all
  have "wait_all s (p # ps) w0 =
      Inr (s', if p # ps = [] then w0 else WEXITSTATUS (fst (children s ! (k + length (p # ps) - 1))))"
    using w ih(1) unfolding last by simp
  moreover have "trace s' = trace s @ (Sys_waitpid (int k + 1) (Some ?ws) # evs)"
    using ih(2) by simp
  moreover have "calls (Sys_waitpid (int k + 1) (Some ?ws) # evs) =
      map (\<lambda>i. Reap (int i + 1)) [k..<k + length (p # ps)]"
    unfolding up using ih(3) by simp
  ultimately show ?case by blast
qed

subsection \<open>Ownership holds from the start and is kept\<close>

lemma owned_append:
  assumes "owned h F" "\<not> closable d" "- 1 \<le> fd d"
  shows "owned (h @ [d]) F"
  unfolding owned_def
proof (intro conjI allI impI)
  fix a assume "a < length (h @ [d])"
  then show "- 1 \<le> fd ((h @ [d]) ! a)"
    using assms by (cases "a < length h") (auto simp: owned_def nth_append)
next
  fix a assume "a < length (h @ [d])" "closable ((h @ [d]) ! a)"
  then show "fd ((h @ [d]) ! a) \<in> F"
    using assms by (cases "a < length h") (auto simp: owned_def nth_append)
next
  fix a b
  assume "a < length (h @ [d])" "b < length (h @ [d])"
    "closable ((h @ [d]) ! a) \<and> closable ((h @ [d]) ! b) \<and> fd ((h @ [d]) ! a) = fd ((h @ [d]) ! b)"
  then show "a = b"
    using assms by (cases "a < length h"; cases "b < length h") (auto simp: owned_def nth_append)
qed

lemma fd_ownership_boot: "fd_ownership (boot limit fs wexp spawn)"
proof -
  have "owned [] (fst ` set (fdtab (boot limit fs wexp spawn)))" by (simp add: owned_def)
  then have "owned ([] @ [descriptor_of_fd standard_in] @ [descriptor_of_fd standard_out] @
      [descriptor_of_fd standard_error]) (fst ` set (fdtab (boot limit fs wexp spawn)))"
    unfolding append_assoc[symmetric]
    by (intro owned_append)
       (simp_all add: closable_iff descriptor_of_fd_def new_descriptor_def standard_in_def
          standard_out_def standard_error_def)
  then show ?thesis by (simp add: fd_ownership_def boot_def static_descriptors_def)
qed

lemma fd_ownership_make_descriptor:
  "fd_ownership s \<Longrightarrow> fd d = - 1 \<Longrightarrow> fd_ownership (fst (make_descriptor s d))"
  by (simp add: fd_ownership_def make_descriptor_def owned_append closable_iff)

lemma owned_same_fds:
  assumes "owned h F" "length h' = length h"
    and "\<And>a. a < length h \<Longrightarrow> fd (h' ! a) = fd (h ! a) \<and> dtype (h' ! a) = dtype (h ! a)"
  shows "owned h' F"
proof -
  have c: "\<And>a. a < length h \<Longrightarrow> closable (h' ! a) = closable (h ! a)"
    using assms(3) by (simp add: closable_iff)
  show ?thesis
    using assms(1) unfolding owned_def assms(2)
    by (simp add: c assms(3))
qed

lemma fd_ownership_link:
  assumes "fd_ownership s" "link s r w = Inr s'"
  shows "fd_ownership s'"
proof -
  from assms(2) have s': "s' = s\<lparr>heap := (heap s)[r := (heap s ! r)\<lparr>linked_fd := Some w\<rparr>,
      w := ((heap s)[r := (heap s ! r)\<lparr>linked_fd := Some w\<rparr>] ! w)\<lparr>linked_fd := Some r\<rparr>]\<rparr>"
    by (simp add: link_def Let_def split: if_splits)
  have "owned (heap s') (fst ` set (fdtab s))"
    by (rule owned_same_fds[OF assms(1)[unfolded fd_ownership_def]])
       (simp_all add: s' nth_upd)
  then show ?thesis by (simp add: fd_ownership_def s')
qed

lemma fd_ownership_execute:
  assumes "fd_ownership s" "execute s p = Inr (s', p')"
  shows "fd_ownership s'"
proof -
  from assms(2) obtain s4 where
    sc: "spawn_child s p = Inr (s4, p')" and cl: "close_parent_side s4 p' = Inr s'"
    by (rule execute_cases)
  from sc obtain s3 action rc bin args waitstatus where
    fa: "file_actions_for s p = Inr (s3, action)" and
    s4: "s4 = s3\<lparr>children := children s3 @ [(waitstatus, False)],
             trace := trace s3 @ [Sys_posix_spawnp (bin # args) (actions action) 0
                                    (int (length (children s3)) + 1)]\<rparr>"
    by (rule spawn_child_cases)
  have "fd_ownership s3" by (rule file_actions_for_props(2)[OF fa assms(1)])
  then have "fd_ownership s4" by (simp add: s4 fd_ownership_def)
  then show ?thesis by (rule close_parent_side_props(2)[OF cl])
qed

subsection \<open>What open() leaves open\<close>

lemma odescriptor_close_other:
  "odescriptor_close s m = Inr s' \<Longrightarrow> a \<noteq> m \<Longrightarrow> heap s' ! a = heap s ! a"
  by (erule odescriptor_close_cases) (simp_all add: nth_upd)

lemma file_descriptor_open_keeps:
  assumes "file_descriptor_open s b = Inr s'" "dtype (heap s ! a) \<noteq> Descriptor"
    and "closable (heap s ! a) \<or> a = b"
  shows "closable (heap s' ! a)"
proof (cases "0 < fd (heap s ! b)")
  case True
  with assms show ?thesis
    by (auto simp: file_descriptor_open_def closable_iff split: if_splits)
next
  case False
  from assms(1) have b: "b < length (heap s)"
    by (auto simp: file_descriptor_open_def split: if_splits)
  show ?thesis
  proof (rule sys_open_cases[of s "path (heap s ! b)" "mode (heap s ! b)"])
    fix e assume "sys_open s (path (heap s ! b)) (mode (heap s ! b)) =
      (s\<lparr>errno := e, trace := trace s @ [Sys_open (path (heap s ! b)) (mode (heap s ! b)) (- 1)]\<rparr>, - 1)"
    with assms(1) b False show ?thesis by (simp add: file_descriptor_open_def)
  next
    fix n fs
    assume o: "sys_open s (path (heap s ! b)) (mode (heap s ! b)) =
       (s\<lparr>fdtab := fdtab s @ [(n, File (path (heap s ! b)) (mode (heap s ! b)))], files := fs,
          trace := trace s @ [Sys_open (path (heap s ! b)) (mode (heap s ! b)) n]\<rparr>, n)"
      and n: "0 \<le> n"
    from assms(1) b False o n have "heap s' = (heap s)[b := (heap s ! b)\<lparr>fd := n\<rparr>]"
      by (auto simp: file_descriptor_open_def)
    with assms(2,3) n b show ?thesis by (auto simp: nth_upd closable_iff)
  qed
qed

lemma pipe_stores_keep:
  assumes "heap s' = (heap s)[x := (heap s ! x)\<lparr>fd := u\<rparr>,
             y := ((heap s)[x := (heap s ! x)\<lparr>fd := u\<rparr>] ! y)\<lparr>fd := v\<rparr>]"
    and "0 \<le> u" "0 \<le> v" "dtype (heap s ! a) \<noteq> Descriptor"
    and "closable (heap s ! a) \<or> (a = y \<and> y < length (heap s)) \<or> (a = x \<and> x < length (heap s))"
  shows "closable (heap s' ! a)"
  using assms(2-) unfolding assms(1) by (auto simp: nth_upd closable_iff)

lemma opipe_descriptor_open_keeps:
  assumes "opipe_descriptor_open s b = Inr s'" "dtype (heap s ! a) \<noteq> Descriptor"
    and "closable (heap s ! a) \<or> a = b"
  shows "closable (heap s' ! a)"
proof (cases "closable (heap s ! b)")
  case True
  with assms show ?thesis by (auto simp: opipe_descriptor_open_def split: if_splits)
next
  case False
  from assms(1) have b: "b < length (heap s)"
    by (auto simp: opipe_descriptor_open_def split: if_splits)
  show ?thesis
  proof (rule sys_pipe_cases[of s])
    assume "sys_pipe s = (s\<lparr>errno := EMFILE, trace := trace s @ [Sys_pipe None]\<rparr>, None)"
    with assms(1) b False show ?thesis by (simp add: opipe_descriptor_open_def)
  next
    fix r w
    assume p: "sys_pipe s =
       (s\<lparr>fdtab := fdtab s @ [(r, Pipe_read (pipes s)), (w, Pipe_write (pipes s))],
          pipes := Suc (pipes s), trace := trace s @ [Sys_pipe (Some (r, w))]\<rparr>, Some (r, w))"
      and rw: "0 \<le> r" "0 \<le> w"
    from assms(1) b False p obtain l where
      "heap s' = (heap s)[l := (heap s ! l)\<lparr>fd := r\<rparr>,
         b := ((heap s)[l := (heap s ! l)\<lparr>fd := r\<rparr>] ! b)\<lparr>fd := w\<rparr>]"
      by (auto simp: opipe_descriptor_open_def split: option.splits if_splits)
    then show ?thesis
      by (rule pipe_stores_keep[OF _ rw assms(2)]) (use assms(3) b in auto)
  qed
qed

lemma ipipe_descriptor_open_keeps:
  assumes "ipipe_descriptor_open s b = Inr s'" "dtype (heap s ! a) \<noteq> Descriptor"
    and "closable (heap s ! a) \<or> a = b"
  shows "closable (heap s' ! a)"
proof (cases "closable (heap s ! b)")
  case True
  with assms show ?thesis by (auto simp: ipipe_descriptor_open_def split: if_splits)
next
  case False
  from assms(1) have b: "b < length (heap s)"
    by (auto simp: ipipe_descriptor_open_def split: if_splits)
  show ?thesis
  proof (rule sys_pipe_cases[of s])
    assume "sys_pipe s = (s\<lparr>errno := EMFILE, trace := trace s @ [Sys_pipe None]\<rparr>, None)"
    with assms(1) b False show ?thesis by (simp add: ipipe_descriptor_open_def)
  next
    fix r w
    assume p: "sys_pipe s =
       (s\<lparr>fdtab := fdtab s @ [(r, Pipe_read (pipes s)), (w, Pipe_write (pipes s))],
          pipes := Suc (pipes s), trace := trace s @ [Sys_pipe (Some (r, w))]\<rparr>, Some (r, w))"
      and rw: "0 \<le> r" "0 \<le> w"
    from assms(1) b False p obtain l where
      "heap s' = (heap s)[b := (heap s ! b)\<lparr>fd := r\<rparr>,
         l := ((heap s)[b := (heap s ! b)\<lparr>fd := r\<rparr>] ! l)\<lparr>fd := w\<rparr>]"
      by (auto simp: ipipe_descriptor_open_def split: option.splits if_splits)
    then show ?thesis
      by (rule pipe_stores_keep[OF _ rw assms(2)]) (use assms(3) b in auto)
  qed
qed

lemma ivariable_descriptor_open_keeps:
  assumes "ivariable_descriptor_open s b = Inr s'" "dtype (heap s ! a) \<noteq> Descriptor"
    and "closable (heap s ! a) \<or> a = b" and "member_pipe (heap s ! b) \<noteq> a"
  shows "closable (heap s' ! a)"
proof (cases "closable (heap s ! b)")
  case True
  with assms show ?thesis by (auto simp: ivariable_descriptor_open_def split: if_splits)
next
  case False
  from assms(1) have b: "b < length (heap s)"
    by (auto simp: ivariable_descriptor_open_def split: if_splits)
  with assms(1) False obtain s1 s2 where
    1: "ipipe_descriptor_open s b = Inr s1" and
    2: "ivariable_descriptor_write s1 b = Inr s2" and
    3: "odescriptor_close s2 (member_pipe (heap s2 ! b)) = Inr s'"
    by (auto simp: ivariable_descriptor_open_def split: sum.splits)
  have c1: "closable (heap s1 ! a)" by (rule ipipe_descriptor_open_keeps[OF 1 assms(2,3)])
  have h2: "heap s2 = heap s1" using ivariable_descriptor_write_silent[OF 2] by (simp add: silent_def)
  have "member_pipe (heap s1 ! b) = member_pipe (heap s ! b)"
    using ipipe_descriptor_open_props(1)[OF 1] b unfolding io_step_def
    by (blast intro: static_same(3))
  with assms(4) h2 have "a \<noteq> member_pipe (heap s2 ! b)" by simp
  from odescriptor_close_other[OF 3 this] c1 h2 show ?thesis by simp
qed

lemma descriptor_open_keeps:
  assumes "descriptor_open s b = Inr s'" "dtype (heap s ! a) \<noteq> Descriptor"
    and "closable (heap s ! a) \<or> a = b"
    and "dtype (heap s ! b) = Ivariable_descriptor \<longrightarrow> member_pipe (heap s ! b) \<noteq> a"
  shows "closable (heap s' ! a)"
proof -
  from assms(1) have b: "b < length (heap s)"
    by (auto simp: descriptor_open_def split: if_splits)
  show ?thesis
  proof (cases "dtype (heap s ! b)")
    case Descriptor
    with assms b show ?thesis by (auto simp: descriptor_open_def)
  next
    case Ifile_descriptor
    with assms b show ?thesis by (simp add: descriptor_open_def file_descriptor_open_keeps)
  next
    case Ofile_descriptor
    with assms b show ?thesis by (simp add: descriptor_open_def file_descriptor_open_keeps)
  next
    case Ipipe_descriptor
    with assms b show ?thesis by (simp add: descriptor_open_def ipipe_descriptor_open_keeps)
  next
    case Opipe_descriptor
    with assms b show ?thesis by (simp add: descriptor_open_def opipe_descriptor_open_keeps)
  next
    case Ivariable_descriptor
    with assms b show ?thesis by (simp add: descriptor_open_def ivariable_descriptor_open_keeps)
  next
    case Ovariable_descriptor
    with assms b show ?thesis by (simp add: descriptor_open_def opipe_descriptor_open_keeps)
  qed
qed

lemma io_step_member:
  "io_step s s' \<Longrightarrow> a < length (heap s) \<Longrightarrow> member_pipe (heap s' ! a) = member_pipe (heap s ! a)"
  unfolding io_step_def by (blast intro: static_same(3))

text \<open>
  The three opens of execute leave every object of the three that is not a plain
  descriptor open, when no input buffer among them holds one of the three as its member.
\<close>

lemma file_actions_for_leaves_open:
  assumes fa: "file_actions_for s p = Inr (s3, action)"
    and mem: "\<forall>b \<in> {stdin_fd p, stdout_fd p, stderr_fd p}.
        dtype (heap s ! b) = Ivariable_descriptor \<longrightarrow>
        member_pipe (heap s ! b) \<notin> {stdin_fd p, stdout_fd p, stderr_fd p}"
    and a: "a \<in> {stdin_fd p, stdout_fd p, stderr_fd p}" "dtype (heap s ! a) \<noteq> Descriptor"
  shows "closable (heap s3 ! a)"
proof -
  from fa obtain s1 s2 action1 action2 action3 where
    1: "process_fds s new_posix_spawn_file_actions (stdin_fd p) standard_in = Inr (s1, action1)" and
    2: "process_fds s1 action1 (stdout_fd p) standard_out = Inr (s2, action2)" and
    3: "process_fds s2 action2 (stderr_fd p) standard_error = Inr (s3, action3)"
    by (rule file_actions_for_cases)
  from 1 have o1: "descriptor_open s (stdin_fd p) = Inr s1"
    by (auto simp: process_fds_def split: sum.splits)
  from 2 have o2: "descriptor_open s1 (stdout_fd p) = Inr s2"
    by (auto simp: process_fds_def split: sum.splits)
  from 3 have o3: "descriptor_open s2 (stderr_fd p) = Inr s3"
    by (auto simp: process_fds_def split: sum.splits)
  note i1 = descriptor_open_props(1)[OF o1] and i2 = descriptor_open_props(1)[OF o2]
  have i12: "io_step s s2" using i1 i2 by (rule io_step_trans)
  note len = file_actions_for_props(3-5)[OF fa]
  have al: "a < length (heap s)" using a(1) len by auto
  have l1: "length (heap s1) = length (heap s)" and l2: "length (heap s2) = length (heap s)"
    using io_step_length[OF i1] io_step_length[OF i12] by simp_all
  have d1: "dtype (heap s1 ! a) \<noteq> Descriptor" and d2: "dtype (heap s2 ! a) \<noteq> Descriptor"
    using a(2) io_step_dtype[OF i1 al] io_step_dtype[OF i12 al] by simp_all
  have m0: "dtype (heap s ! stdin_fd p) = Ivariable_descriptor \<longrightarrow>
      member_pipe (heap s ! stdin_fd p) \<noteq> a"
    using mem a(1) by blast
  have m1: "dtype (heap s1 ! stdout_fd p) = Ivariable_descriptor \<longrightarrow>
      member_pipe (heap s1 ! stdout_fd p) \<noteq> a"
    using mem a(1) io_step_dtype[OF i1 len(2)] io_step_member[OF i1 len(2)] by auto
  have m2: "dtype (heap s2 ! stderr_fd p) = Ivariable_descriptor \<longrightarrow>
      member_pipe (heap s2 ! stderr_fd p) \<noteq> a"
    using mem a(1) io_step_dtype[OF i12 len(3)] io_step_member[OF i12 len(3)] by auto
  consider "a = stdin_fd p" | "a \<noteq> stdin_fd p" "a = stdout_fd p"
    | "a \<noteq> stdin_fd p" "a \<noteq> stdout_fd p" "a = stderr_fd p"
    using a(1) by blast
  then show ?thesis
  proof cases
    case 1
    have "closable (heap s1 ! a)"
      by (rule descriptor_open_keeps[OF o1 a(2) _ m0]) (simp add: 1)
    then have "closable (heap s2 ! a)"
      by (intro descriptor_open_keeps[OF o2 d1 _ m1]) simp
    then show ?thesis
      by (intro descriptor_open_keeps[OF o3 d2 _ m2]) simp
  next
    case 2
    have "closable (heap s2 ! a)"
      by (rule descriptor_open_keeps[OF o2 d1 _ m1]) (simp add: 2)
    then show ?thesis
      by (intro descriptor_open_keeps[OF o3 d2 _ m2]) simp
  next
    case 3
    show ?thesis
      by (rule descriptor_open_keeps[OF o3 d2 _ m2]) (simp add: 3)
  qed
qed

section \<open>The claims\<close>

subsection \<open>C1: standard input from a path\<close>

text \<open>
  C1 says that the less-than operator with a filesystem path binds the stdin of the first
  process to an input-file descriptor, which opens its file read-only. The operator makes
  an \<^verbatim>\<open>ofile_descriptor\<close> with the default mode instead: for every state, command and
  path, the new object has the dynamic type of the output-file class and its mode is
  \<open>O_WRONLY\<close>, which is not the read-only access mode.
\<close>

theorem redirect_in_path_makes_ofile_descriptor:
  "redirect_in_path s (c\<lparr>processes := p # ps\<rparr>) file_name =
     Inr (s\<lparr>heap := heap s @ [ofile_descriptor file_name 0]\<rparr>,
          c\<lparr>processes := p\<lparr>stdin_fd := length (heap s)\<rparr> # ps\<rparr>)
   \<and> dtype (ofile_descriptor file_name 0) = Ofile_descriptor
   \<and> mode (ofile_descriptor file_name 0) = O_WRONLY
   \<and> O_WRONLY AND O_ACCMODE \<noteq> O_RDONLY"
  by (simp add: redirect_in_path_def with_made_def make_descriptor_def redirect_in_fd_def
      on_front_def set_in_def ofile_descriptor_def new_descriptor_def O_WRONLY_def O_ACCMODE_def
      O_RDONLY_def)

text \<open>
  Running \<^verbatim>\<open>cat\<close> with its input taken from \<^verbatim>\<open>/etc/passwd\<close>: the file is opened
  with \<open>O_WRONLY\<close> and that file descriptor becomes the child's stdin.
\<close>

lemma stdin_path_example:
  "(case redirect_in_path example_world (new_command ''cat'') ''/etc/passwd'' of
      Inl e \<Rightarrow> Inl e
    | Inr (s, c) \<Rightarrow> map_sum id (\<lambda>(s', c', status). trace s') (run_nothrow s c)) =
   Inr [Sys_open ''/etc/passwd'' O_WRONLY 3,
        Sys_posix_spawnp [''cat''] [Adddup2 3 0, Adddup2 1 1, Adddup2 2 2, Addclose 3] 0 1,
        Sys_close 3, Sys_waitpid 1 (Some 0)]"
  by code_simp

text \<open>An \<^verbatim>\<open>ifile_descriptor\<close> with the default mode does ask for read-only access.\<close>

lemma ifile_descriptor_read_only: "mode (ifile_descriptor file_name 0) AND O_ACCMODE = O_RDONLY"
  by (simp add: ifile_descriptor_def new_descriptor_def O_RDONLY_def)

subsection \<open>C2: a failing read while an output buffer is drained\<close>

text \<open>
  C2 says that a read that fails while \<^verbatim>\<open>ovariable_descriptor::close\<close> drains the pipe
  raises an OS error. \<^verbatim>\<open>idescriptor::read\<close> builds the exception and does not throw it.
  Here the child's output arrives as \<^verbatim>\<open>abc\<close> and the next read fails with errno 5:
  \<^verbatim>\<open>close()\<close> returns normally, the caller's string holds \<^verbatim>\<open>abc\<close>, and the trace
  shows the failed read between the two closes.
\<close>

theorem read_failure_is_not_raised:
  "(case make_ovariable_descriptor
           (example_world\<lparr>vars := [[]], read_results := [Read_data ''abc'', Read_fail 5]\<rparr>) 0 of
      (s1, a) \<Rightarrow>
        (case descriptor_open s1 a of
           Inl e \<Rightarrow> Inl e
         | Inr s2 \<Rightarrow> map_sum id (\<lambda>s3. (vars s3, new_events s2 s3)) (descriptor_close s2 a))) =
   Inr ([''abc''], [Sys_close 4, Sys_read 3 3, Sys_read 3 (- 1), Sys_close 3])"
  by code_simp

text \<open>In every state the read of an object returns normally.\<close>

lemma idescriptor_read_never_raises:
  "a < length (heap s) \<Longrightarrow> \<exists>s' out. idescriptor_read s a = Inr (s', out)"
  using idescriptor_read_total by blast

subsection \<open>C3: a failing shell expansion\<close>

text \<open>
  C3 says that a failure of the shell-word expansion reaches the caller of
  \<^verbatim>\<open>execute()\<close> as an OS error. The constructor of \<^verbatim>\<open>shell_expander\<close> drops the
  return code of wordexp, and \<^verbatim>\<open>execute()\<close> goes on to read the first word of a
  vector that is null. For the command line \<^verbatim>\<open>echo hello | cat\<close>, which wordexp
  rejects, the result is undefined behaviour, not an exception.
\<close>

theorem expansion_failure_is_not_an_os_error:
  "fst (wordexp_results example_world ''echo hello | cat'') \<noteq> 0 \<and>
   map_sum id (\<lambda>(s', p'). pid p') (execute example_world (new_posix_process ''echo hello | cat'')) =
     Inl undefined_behaviour"
  by code_simp

subsection \<open>C4: run spawns every process, then waits for every process\<close>

text \<open>
  C4: when the non-throwing \<^verbatim>\<open>run\<close> returns, the spawns and reaps it has made are, in
  this order: one spawn for each process of the pipeline, in the order of the list, with
  the expanded command line of that process, and then one reap for each process, in the
  same order, on the pid its spawn returned. The value returned is the exit status of the
  child of the last process (0 for an empty list).
\<close>

theorem run_nothrow_spawns_all_then_waits_all:
  assumes "run_nothrow s c = Inr (s', c', status)"
  shows "\<exists>pids. length pids = length (processes c) \<and> distinct pids \<and>
      map pid (processes c') = map Some pids \<and>
      calls (new_events s s') =
        map2 (\<lambda>p n. Spawn (argv_of s p) n) (processes c) pids @ map Reap pids \<and>
      status = (if processes c = [] then 0 else exit_status_of s (last (processes c)))"
proof -
  let ?ps = "processes c"
  let ?k = "length (children s)"
  let ?n = "length ?ps"
  let ?pids = "map (\<lambda>i. int i + 1) [?k..<?k + ?n]"
  from assms obtain s1 ps1 where
    ea: "execute_all s ?ps = Inr (s1, ps1)" and
    wa: "wait_all s1 ps1 0 = Inr (s', status)" and
    c': "c' = c\<lparr>processes := ps1\<rparr>"
    by (auto simp: run_nothrow_def split: sum.splits)
  from execute_all_props[OF ea] obtain evs where
    ch: "children s1 = children s @ map (\<lambda>p. (wait_status_of s p, False)) ?ps" and
    pd: "map pid ps1 = map (\<lambda>i. Some (int i + 1)) [?k..<?k + ?n]" and
    t1: "trace s1 = trace s @ evs" and
    c1: "calls evs = map2 (\<lambda>p i. Spawn (argv_of s p) (int i + 1)) ?ps [?k..<?k + ?n]"
    by blast
  from pd have len: "length ps1 = ?n" by (metis length_map length_upt add_diff_cancel_left')
  have a1: "map pid ps1 = map (\<lambda>i. Some (int i + 1)) [?k..<?k + length ps1]"
    using pd len by simp
  have a2: "?k + length ps1 \<le> length (children s1)" by (simp add: ch len)
  have a3: "\<forall>i < length ps1. \<not> snd (children s1 ! (?k + i))"
    by (simp add: ch len nth_append)
  from wait_all_props[OF a1 a2 a3, of 0] wa obtain evs2 where
    st: "status = (if ps1 = [] then 0
                   else WEXITSTATUS (fst (children s1 ! (?k + length ps1 - 1))))" and
    t2: "trace s' = trace s1 @ evs2" and
    c2: "calls evs2 = map (\<lambda>i. Reap (int i + 1)) [?k..<?k + length ps1]"
    by auto
  have "length ?pids = ?n" by simp
  moreover have "distinct ?pids" by (simp add: distinct_map inj_on_def)
  moreover have "map pid (processes c') = map Some ?pids" by (simp add: c' pd)
  moreover have "calls (new_events s s') =
        map2 (\<lambda>p n. Spawn (argv_of s p) n) ?ps ?pids @ map Reap ?pids"
  proof -
    have "trace s' = trace s @ (evs @ evs2)" by (simp add: t1 t2)
    then have "new_events s s' = evs @ evs2" by (rule new_events_append)
    then show ?thesis by (auto simp: c1 c2 len zip_map2 comp_def)
  qed
  moreover have "status = (if ?ps = [] then 0 else exit_status_of s (last ?ps))"
  proof (cases "?ps = []")
    case True
    with len st show ?thesis by simp
  next
    case False
    then have n: "0 < ?n" by simp
    have "?ps \<noteq> [] \<Longrightarrow> 0 < length ?ps" by simp
    then have "1 \<le> ?n" using False by linarith
    then have idx: "?k + ?n - 1 = ?k + (?n - 1)" by linarith
    have "children s1 ! (?k + ?n - 1) = (wait_status_of s (?ps ! (?n - 1)), False)"
      unfolding idx ch using n by (simp add: nth_append_length_plus)
    moreover have "?ps ! (?n - 1) = last ?ps" using False by (simp add: last_conv_nth)
    moreover have "ps1 \<noteq> []" using False len by auto
    ultimately show ?thesis using False len st by (simp add: exit_status_of_def)
  qed
  ultimately show ?thesis by blast
qed

theorem run_nothrow_spawns_all_then_waits_all_witness:
  "\<exists>s' c'. run_nothrow (fst example_pipeline) (snd example_pipeline) = Inr (s', c', 0) \<and>
     map cmd (processes (snd example_pipeline)) = [''false'', ''true''] \<and>
     exit_status_of (fst example_pipeline) (hd (processes (snd example_pipeline))) = 1 \<and>
     calls (new_events (fst example_pipeline) s') =
       [Spawn [''false''] 1, Spawn [''true''] 2, Reap 1, Reap 2]"
proof -
  let ?s = "fst example_pipeline" and ?c = "snd example_pipeline"
  have "case run_nothrow ?s ?c of Inl e \<Rightarrow> False | Inr r \<Rightarrow> True" by code_simp
  then obtain s' c' status where r: "run_nothrow ?s ?c = Inr (s', c', status)"
    by (cases "run_nothrow ?s ?c") auto
  have ps: "map cmd (processes ?c) = [''false'', ''true'']" by code_simp
  have e1: "exit_status_of ?s (hd (processes ?c)) = 1" by code_simp
  have e2: "exit_status_of ?s (last (processes ?c)) = 0" by code_simp
  have av: "map (argv_of ?s) (processes ?c) = [[''false''], [''true'']]" by code_simp
  have pd: "map (\<lambda>(s', c', status). map pid (processes c')) [projr (run_nothrow ?s ?c)] =
            [[Some 1, Some 2]]" by code_simp
  from run_nothrow_spawns_all_then_waits_all[OF r] obtain pids where
    p: "length pids = length (processes ?c)" "map pid (processes c') = map Some pids"
      "calls (new_events ?s s') =
        map2 (\<lambda>p n. Spawn (argv_of ?s p) n) (processes ?c) pids @ map Reap pids"
      "status = (if processes ?c = [] then 0 else exit_status_of ?s (last (processes ?c)))"
    by blast
  from ps have ne: "processes ?c \<noteq> []" by auto
  with p(4) e2 have st: "status = 0" by simp
  from pd r p(2) have "map Some pids = [Some 1, Some 2]" by simp
  then have pids: "pids = [1, 2]" by auto
  obtain p1 p2 where pp: "processes ?c = [p1, p2]" using ps by auto
  with av have "argv_of ?s p1 = [''false'']" "argv_of ?s p2 = [''true'']" by simp_all
  with p(3) pids pp have cl: "calls (new_events ?s s') =
       [Spawn [''false''] 1, Spawn [''true''] 2, Reap 1, Reap 2]" by simp
  have r0: "run_nothrow ?s ?c = Inr (s', c', 0)" using r st by simp
  show ?thesis by (rule exI[of _ s'], rule exI[of _ c']) (intro conjI r0 ps e1 cl)
qed

subsection \<open>C5: the parent side is closed after the spawn, once\<close>

lemma count_list_distinct: "distinct xs \<Longrightarrow> count_list xs x = (if x \<in> set xs then 1 else 0)"
  by (induction xs) auto

lemma closing_not_closable:
  "closing s s' \<Longrightarrow> b < length (heap s) \<Longrightarrow> \<not> closable (heap s ! b) \<Longrightarrow> \<not> closable (heap s' ! b)"
  unfolding closing_def by blast

lemma closing_length: "closing s s' \<Longrightarrow> length (heap s') = length (heap s)"
  unfolding closing_def by blast

text \<open>
  C5: let every open object hold a file descriptor of the process that no other open
  object holds. When \<^verbatim>\<open>execute()\<close> returns, each of the objects bound to stdin, stdout
  and stderr is no longer closable, and holds \<open>-1\<close> unless it is a plain
  \<^verbatim>\<open>descriptor\<close>. The call passes through the state in which posix\_spawnp has just
  returned, and the trace of the whole call is the trace up to there followed by the
  closes of the parent side. In that state each object of the three that is not a plain
  \<^verbatim>\<open>descriptor\<close> is open: it is closable and its file descriptor is open in the process,
  so nothing before the spawn has closed it. This needs that no input buffer among the
  three has one of the three as the write end it owns, which \<^verbatim>\<open>open()\<close> of the buffer
  closes; the library never binds that private pipe to a stream. The calls of
  \<^verbatim>\<open>close()\<close> after the spawn then close that file descriptor exactly once. For any
  object of the three, also a plain one, that is closable when the spawn returns the same
  holds without the condition on input buffers.
\<close>

theorem execute_closes_parent_side_once_after_spawn:
  assumes "fd_ownership s" and "execute s p = Inr (s', p')"
    and "a \<in> {stdin_fd p, stdout_fd p, stderr_fd p}"
  shows "\<not> closable (heap s' ! a) \<and>
     (dtype (heap s' ! a) \<noteq> Descriptor \<longrightarrow> fd (heap s' ! a) = - 1) \<and>
     (\<exists>s4 argv acts n.
        spawn_child s p = Inr (s4, p') \<and> close_parent_side s4 p' = Inr s' \<and>
        last (trace s4) = Sys_posix_spawnp argv acts 0 n \<and>
        trace s' = trace s4 @ new_events s4 s' \<and>
        ((\<forall>b \<in> {stdin_fd p, stdout_fd p, stderr_fd p}.
             dtype (heap s ! b) = Ivariable_descriptor \<longrightarrow>
             member_pipe (heap s ! b) \<notin> {stdin_fd p, stdout_fd p, stderr_fd p}) \<and>
         dtype (heap s ! a) \<noteq> Descriptor \<longrightarrow>
           closable (heap s4 ! a) \<and>
           fd (heap s4 ! a) \<in> fst ` set (fdtab s4) \<and>
           count_list (closes (new_events s4 s')) (fd (heap s4 ! a)) = 1) \<and>
        (closable (heap s4 ! a) \<longrightarrow>
           fd (heap s4 ! a) \<in> fst ` set (fdtab s4) \<and>
           count_list (closes (new_events s4 s')) (fd (heap s4 ! a)) = 1))"
proof -
  from assms(2) obtain s4 where
    sc: "spawn_child s p = Inr (s4, p')" and cl: "close_parent_side s4 p' = Inr s'"
    by (rule execute_cases)
  from sc obtain s3 action rc bin args waitstatus where
    fa: "file_actions_for s p = Inr (s3, action)" and
    s4: "s4 = s3\<lparr>children := children s3 @ [(waitstatus, False)],
             trace := trace s3 @ [Sys_posix_spawnp (bin # args) (actions action) 0
                                    (int (length (children s3)) + 1)]\<rparr>" and
    p': "p' = p\<lparr>pid := Some (int (length (children s3)) + 1)\<rparr>"
    by (rule spawn_child_cases)
  have o3: "fd_ownership s3" by (rule file_actions_for_props(2)[OF fa assms(1)])
  then have o4: "fd_ownership s4" by (simp add: s4 fd_ownership_def)
  have len4: "length (heap s4) = length (heap s)"
    using io_step_length[OF file_actions_for_props(1)[OF fa]] by (simp add: s4)
  have slots: "stdin_fd p' = stdin_fd p" "stdout_fd p' = stdout_fd p" "stderr_fd p' = stderr_fd p"
    by (simp_all add: p')
  from cl obtain s5 s6 where
    c1: "descriptor_close s4 (stdin_fd p) = Inr s5" and
    c2: "descriptor_close s5 (stdout_fd p) = Inr s6" and
    c3: "descriptor_close s6 (stderr_fd p) = Inr s'"
    unfolding slots[symmetric] by (rule close_parent_side_cases)
  note p1 = descriptor_close_props[OF c1] and p2 = descriptor_close_props[OF c2]
    and p3 = descriptor_close_props[OF c3]
  have o5: "fd_ownership s5" by (rule p1(4)[OF o4])
  have o6: "fd_ownership s6" by (rule p2(4)[OF o5])
  have o7: "fd_ownership s'" by (rule p3(4)[OF o6])
  have k45: "closing s4 s5" by (rule p1(5)[OF o4])
  have k56: "closing s5 s6" by (rule p2(5)[OF o5])
  have k67: "closing s6 s'" by (rule p3(5)[OF o6])
  have l5: "length (heap s5) = length (heap s4)" and l6: "length (heap s6) = length (heap s4)"
    using closing_length[OF k45] closing_length[OF k56] by simp_all
  have k47: "closing s4 s'" using k45 k56 k67 by (blast intro: closing_trans)
  have a4: "a < length (heap s4)"
    using assms(3) p1(3) p2(3) p3(3) l5 l6 by auto
  have ncl: "\<not> closable (heap s' ! a)"
  proof -
    consider "a = stdin_fd p" | "a = stdout_fd p" | "a = stderr_fd p" using assms(3) by blast
    then show ?thesis
    proof cases
      case 1
      with p1(2) have "\<not> closable (heap s5 ! a)" by simp
      then have "\<not> closable (heap s6 ! a)"
        using closing_not_closable[OF k56] a4 l5 by simp
      then show ?thesis using closing_not_closable[OF k67] a4 l6 by simp
    next
      case 2
      with p2(2) have "\<not> closable (heap s6 ! a)" by simp
      then show ?thesis using closing_not_closable[OF k67] a4 l6 by simp
    next
      case 3
      with p3(2) show ?thesis by simp
    qed
  qed
  have a7: "a < length (heap s')" using a4 closing_length[OF k47] by simp
  have m1: "dtype (heap s' ! a) \<noteq> Descriptor \<longrightarrow> fd (heap s' ! a) = - 1"
  proof
    assume "dtype (heap s' ! a) \<noteq> Descriptor"
    with ncl have "fd (heap s' ! a) < 0" by (simp add: closable_iff)
    moreover from o7 a7 have "- 1 \<le> fd (heap s' ! a)"
      unfolding fd_ownership_def owned_def by blast
    ultimately show "fd (heap s' ! a) = - 1" by simp
  qed
  from k47 obtain evs where
    tr: "trace s' = trace s4 @ evs" and di: "distinct (closes evs)" and
    se: "set (closes evs) = open_fds s4 - open_fds s'" and
    keep: "\<forall>b < length (heap s4). closable (heap s' ! b) \<longrightarrow>
        closable (heap s4 ! b) \<and> fd (heap s' ! b) = fd (heap s4 ! b)"
    unfolding closing_def by blast
  have ne: "new_events s4 s' = evs" using tr by (rule new_events_append)
  have once: "fd (heap s4 ! a) \<in> fst ` set (fdtab s4) \<and>
           count_list (closes (new_events s4 s')) (fd (heap s4 ! a)) = 1"
    if c: "closable (heap s4 ! a)"
  proof -
    let ?f = "fd (heap s4 ! a)"
    from o4 a4 c have own: "?f \<in> fst ` set (fdtab s4)"
      unfolding fd_ownership_def owned_def by blast
    have in4: "?f \<in> open_fds s4" using a4 c unfolding open_fds_def by blast
    have "?f \<notin> open_fds s'"
    proof
      assume "?f \<in> open_fds s'"
      then obtain b where b: "b < length (heap s')" "closable (heap s' ! b)" "?f = fd (heap s' ! b)"
        unfolding open_fds_def by blast
      from b(1) have b4: "b < length (heap s4)" using closing_length[OF k47] by simp
      with keep b have "closable (heap s4 ! b)" "fd (heap s4 ! b) = ?f" by simp_all
      with o4 a4 b4 c have "b = a" unfolding fd_ownership_def owned_def by blast
      with b(2) ncl show False by simp
    qed
    with in4 se have "?f \<in> set (closes evs)" by simp
    with di have "count_list (closes evs) ?f = 1" by (simp add: count_list_distinct)
    with own ne show ?thesis by simp
  qed
  have la: "last (trace s4) = Sys_posix_spawnp (bin # args) (actions action) 0
          (int (length (children s3)) + 1)"
    by (simp add: s4)
  have tr': "trace s' = trace s4 @ new_events s4 s'" using tr ne by simp
  have still: "closable (heap s4 ! a) \<and>
           fd (heap s4 ! a) \<in> fst ` set (fdtab s4) \<and>
           count_list (closes (new_events s4 s')) (fd (heap s4 ! a)) = 1"
    if mem: "\<forall>b \<in> {stdin_fd p, stdout_fd p, stderr_fd p}.
             dtype (heap s ! b) = Ivariable_descriptor \<longrightarrow>
             member_pipe (heap s ! b) \<notin> {stdin_fd p, stdout_fd p, stderr_fd p}"
      and d: "dtype (heap s ! a) \<noteq> Descriptor"
  proof -
    have "closable (heap s3 ! a)"
      by (rule file_actions_for_leaves_open[OF fa mem assms(3) d])
    then have c: "closable (heap s4 ! a)" by (simp add: s4)
    from c once[OF c] show ?thesis by (rule conjI)
  qed
  show ?thesis
    apply (rule conjI, rule ncl)
    apply (rule conjI, rule m1)
    apply (rule exI[of _ s4], rule exI, rule exI, rule exI)
    apply (rule conjI, rule sc)
    apply (rule conjI, rule cl)
    apply (rule conjI, rule la)
    apply (rule conjI, rule tr')
    apply (rule conjI)
     apply (rule impI, erule conjE, erule (1) still)
    apply (rule impI, erule once)
    done
qed

theorem execute_closes_parent_side_once_after_spawn_witness:
  "fd_ownership (fst example_aliased) \<and>
   stdin_fd (snd example_aliased) = 5 \<and>
   stdout_fd (snd example_aliased) = 3 \<and> stderr_fd (snd example_aliased) = 3 \<and>
   dtype (heap (fst example_aliased) ! 5) = Ivariable_descriptor \<and>
   member_pipe (heap (fst example_aliased) ! 5) = 4 \<and>
   dtype (heap (fst example_aliased) ! 3) = Ofile_descriptor \<and>
   (\<exists>s' p' s4. execute (fst example_aliased) (snd example_aliased) = Inr (s', p') \<and>
      fd (heap s' ! 3) = - 1 \<and>
      spawn_child (fst example_aliased) (snd example_aliased) = Inr (s4, p') \<and>
      closable (heap s4 ! 3) \<and> fd (heap s4 ! 3) = 4 \<and>
      count_list (closes (new_events s4 s')) 4 = 1 \<and>
      closable (heap s4 ! 5) \<and> fd (heap s4 ! 5) = 3 \<and>
      count_list (closes (new_events s4 s')) 3 = 1)"
proof -
  let ?s = "fst example_aliased" and ?p = "snd example_aliased"
  have h: "map (\<lambda>d. (dtype d = Descriptor, fd d)) (heap ?s) =
      [(True, 0), (True, 1), (True, 2), (False, - 1), (False, - 1), (False, - 1)]"
    by code_simp
  have own: "fd_ownership ?s"
  proof -
    have len: "length (heap ?s) = 6" using arg_cong[OF h, of length] by simp
    have nth: "\<And>i. i < 6 \<Longrightarrow>
        (dtype (heap ?s ! i) = Descriptor, fd (heap ?s ! i)) =
        [(True, 0), (True, 1), (True, 2), (False, - 1), (False, - 1), (False, - 1 :: int)] ! i"
      using h len by (metis (no_types, lifting) nth_map)
    have all: "\<And>i. i < 6 \<Longrightarrow> \<not> closable (heap ?s ! i) \<and> - 1 \<le> fd (heap ?s ! i)"
    proof -
      fix i :: nat assume "i < 6"
      then consider "i = 0" | "i = 1" | "i = 2" | "i = 3" | "i = 4" | "i = 5" by linarith
      then show "\<not> closable (heap ?s ! i) \<and> - 1 \<le> fd (heap ?s ! i)"
        using nth[of i] by cases (auto simp: closable_iff)
    qed
    show ?thesis unfolding fd_ownership_def owned_def len using all by blast
  qed
  have so: "stdin_fd ?p = 5" "stdout_fd ?p = 3" "stderr_fd ?p = 3" by code_simp+
  have ty: "dtype (heap ?s ! 5) = Ivariable_descriptor" "member_pipe (heap ?s ! 5) = 4"
    "dtype (heap ?s ! 3) = Ofile_descriptor"
    by code_simp+
  have mem: "\<forall>b \<in> {stdin_fd ?p, stdout_fd ?p, stderr_fd ?p}.
      dtype (heap ?s ! b) = Ivariable_descriptor \<longrightarrow>
      member_pipe (heap ?s ! b) \<notin> {stdin_fd ?p, stdout_fd ?p, stderr_fd ?p}"
    by (simp add: so ty)
  have "case execute ?s ?p of Inl e \<Rightarrow> False | Inr r \<Rightarrow> True" by code_simp
  then obtain s' p' where ex: "execute ?s ?p = Inr (s', p')"
    by (cases "execute ?s ?p") auto
  have a3: "3 \<in> {stdin_fd ?p, stdout_fd ?p, stderr_fd ?p}" using so by simp
  have a5: "5 \<in> {stdin_fd ?p, stdout_fd ?p, stderr_fd ?p}" using so by simp
  have d3: "dtype (heap ?s ! 3) \<noteq> Descriptor" and d5: "dtype (heap ?s ! 5) \<noteq> Descriptor"
    by (simp_all add: ty)
  have dt: "map_sum id (\<lambda>(s', p'). dtype (heap s' ! 3)) (execute ?s ?p) = Inr Ofile_descriptor"
    by code_simp
  have sp: "map_sum id (\<lambda>(s4, p4). (fd (heap s4 ! 3), fd (heap s4 ! 5))) (spawn_child ?s ?p) =
      Inr (4, 3)"
    by code_simp
  from execute_closes_parent_side_once_after_spawn[OF own ex a3]
  obtain s4 where f: "dtype (heap s' ! 3) \<noteq> Descriptor \<longrightarrow> fd (heap s' ! 3) = - 1"
    and sc: "spawn_child ?s ?p = Inr (s4, p')"
    and once3: "(\<forall>b \<in> {stdin_fd ?p, stdout_fd ?p, stderr_fd ?p}.
             dtype (heap ?s ! b) = Ivariable_descriptor \<longrightarrow>
             member_pipe (heap ?s ! b) \<notin> {stdin_fd ?p, stdout_fd ?p, stderr_fd ?p}) \<and>
         dtype (heap ?s ! 3) \<noteq> Descriptor \<longrightarrow>
           closable (heap s4 ! 3) \<and>
           count_list (closes (new_events s4 s')) (fd (heap s4 ! 3)) = 1"
    by blast
  from execute_closes_parent_side_once_after_spawn[OF own ex a5]
  obtain t4 where sc5: "spawn_child ?s ?p = Inr (t4, p')"
    and once5: "(\<forall>b \<in> {stdin_fd ?p, stdout_fd ?p, stderr_fd ?p}.
             dtype (heap ?s ! b) = Ivariable_descriptor \<longrightarrow>
             member_pipe (heap ?s ! b) \<notin> {stdin_fd ?p, stdout_fd ?p, stderr_fd ?p}) \<and>
         dtype (heap ?s ! 5) \<noteq> Descriptor \<longrightarrow>
           closable (heap t4 ! 5) \<and>
           count_list (closes (new_events t4 s')) (fd (heap t4 ! 5)) = 1"
    by blast
  from sc sc5 have t4: "t4 = s4" by simp
  from dt ex f have f7: "fd (heap s' ! 3) = - 1" by simp
  from sp sc have fds: "fd (heap s4 ! 3) = 4" "fd (heap s4 ! 5) = 3" by simp_all
  from once3 mem d3 have c3: "closable (heap s4 ! 3)"
    and n3: "count_list (closes (new_events s4 s')) (fd (heap s4 ! 3)) = 1" by blast+
  from once5 mem d5 have c5: "closable (heap s4 ! 5)"
    and n5: "count_list (closes (new_events s4 s')) (fd (heap s4 ! 5)) = 1"
    unfolding t4 by blast+
  from n3 fds have cnt3: "count_list (closes (new_events s4 s')) 4 = 1" by simp
  from n5 fds have cnt5: "count_list (closes (new_events s4 s')) 3 = 1" by simp
  show ?thesis
    by (intro conjI own so ty exI[of _ s'] exI[of _ p'] exI[of _ s4] ex f7 sc c3 fds cnt3 c5 cnt5)
qed

subsection \<open>C6: linking is exclusive, opening is joint\<close>

text \<open>
  C6: for a pipe read end \<open>r\<close> and a pipe write end \<open>w\<close>, \<^verbatim>\<open>link\<close> raises a usage
  error when either of them has a partner already, and links the two when neither has.
  On a pair that \<^verbatim>\<open>link\<close> has linked and that is not open, when pipe creation
  succeeds, \<^verbatim>\<open>open()\<close> of the read end returns and \<^verbatim>\<open>open()\<close> of the write end
  returns, with the same result: the one system call made is that pipe creation, the read
  end holds the read file descriptor and the write end the write file descriptor it gave,
  both non-negative, which the process holds as the read half and the write half of one
  and the same pipe; after that, \<^verbatim>\<open>open()\<close> of either end changes nothing. When pipe
  creation fails, \<^verbatim>\<open>open()\<close> of either end raises the OS error.
\<close>

theorem link_exclusive_and_open_joint:
  assumes "r < length (heap s)" and "dtype (heap s ! r) = Ipipe_descriptor"
    and "w < length (heap s)" and "dtype (heap s ! w) = Opipe_descriptor"
  shows
    "(linked_fd (heap s ! r) \<noteq> None \<or> linked_fd (heap s ! w) \<noteq> None \<longrightarrow>
        (\<exists>msg. link s r w = Inl (usage_error msg))) \<and>
     (linked_fd (heap s ! r) = None \<and> linked_fd (heap s ! w) = None \<longrightarrow>
        (\<exists>s1. link s r w = Inr s1 \<and>
           linked_fd (heap s1 ! r) = Some w \<and> linked_fd (heap s1 ! w) = Some r)) \<and>
     (\<forall>s1. link s r w = Inr s1 \<and> \<not> closable (heap s ! r) \<and> \<not> closable (heap s ! w) \<longrightarrow>
        (\<forall>x y. snd (sys_pipe s1) = Some (x, y) \<longrightarrow>
           (\<exists>s2. descriptor_open s1 r = Inr s2 \<and> descriptor_open s1 w = Inr s2 \<and>
              fd (heap s2 ! r) = x \<and> fd (heap s2 ! w) = y \<and> 0 \<le> x \<and> 0 \<le> y \<and>
              map_of (fdtab s2) (fd (heap s2 ! r)) = Some (Pipe_read (pipes s1)) \<and>
              map_of (fdtab s2) (fd (heap s2 ! w)) = Some (Pipe_write (pipes s1)) \<and>
              new_events s1 s2 = [Sys_pipe (Some (x, y))] \<and>
              descriptor_open s2 r = Inr s2 \<and> descriptor_open s2 w = Inr s2)) \<and>
        (snd (sys_pipe s1) = None \<longrightarrow>
           descriptor_open s1 r = Inl (os_error [''pipe''] EMFILE) \<and>
           descriptor_open s1 w = Inl (os_error [''pipe''] EMFILE)))"
proof (intro conjI)
  show "linked_fd (heap s ! r) \<noteq> None \<or> linked_fd (heap s ! w) \<noteq> None \<longrightarrow>
        (\<exists>msg. link s r w = Inl (usage_error msg))"
    using assms by (simp add: link_def)
next
  from assms have ne: "r \<noteq> w" by auto
  show "linked_fd (heap s ! r) = None \<and> linked_fd (heap s ! w) = None \<longrightarrow>
        (\<exists>s1. link s r w = Inr s1 \<and>
           linked_fd (heap s1 ! r) = Some w \<and> linked_fd (heap s1 ! w) = Some r)"
    using assms ne by (simp add: link_def Let_def nth_upd)
next
  have main: "(\<forall>x y. snd (sys_pipe s1) = Some (x, y) \<longrightarrow>
           (\<exists>s2. descriptor_open s1 r = Inr s2 \<and> descriptor_open s1 w = Inr s2 \<and>
              fd (heap s2 ! r) = x \<and> fd (heap s2 ! w) = y \<and> 0 \<le> x \<and> 0 \<le> y \<and>
              map_of (fdtab s2) (fd (heap s2 ! r)) = Some (Pipe_read (pipes s1)) \<and>
              map_of (fdtab s2) (fd (heap s2 ! w)) = Some (Pipe_write (pipes s1)) \<and>
              new_events s1 s2 = [Sys_pipe (Some (x, y))] \<and>
              descriptor_open s2 r = Inr s2 \<and> descriptor_open s2 w = Inr s2)) \<and>
        (snd (sys_pipe s1) = None \<longrightarrow>
           descriptor_open s1 r = Inl (os_error [''pipe''] EMFILE) \<and>
           descriptor_open s1 w = Inl (os_error [''pipe''] EMFILE))"
    if h: "link s r w = Inr s1 \<and> \<not> closable (heap s ! r) \<and> \<not> closable (heap s ! w)" for s1
  proof -
    from assms have ne: "r \<noteq> w" by auto
    from h assms have s1: "s1 = s\<lparr>heap := (heap s)[r := (heap s ! r)\<lparr>linked_fd := Some w\<rparr>,
                                                w := (heap s ! w)\<lparr>linked_fd := Some r\<rparr>]\<rparr>"
      using ne by (auto simp: link_def Let_def split: if_splits)
    have hr: "heap s1 ! r = (heap s ! r)\<lparr>linked_fd := Some w\<rparr>"
      and hw: "heap s1 ! w = (heap s ! w)\<lparr>linked_fd := Some r\<rparr>"
      and len: "length (heap s1) = length (heap s)"
      using assms ne by (simp_all add: s1)
    have ncl: "\<not> closable (heap s1 ! r)" "\<not> closable (heap s1 ! w)"
      using h by (simp_all add: hr hw closable_iff)
    have dr: "descriptor_open s1 r = ipipe_descriptor_open s1 r"
      and dw: "descriptor_open s1 w = opipe_descriptor_open s1 w"
      using assms len by (simp_all add: descriptor_open_def hr hw)
    show ?thesis
    proof (rule sys_pipe_cases[of s1])
      assume f: "sys_pipe s1 = (s1\<lparr>errno := EMFILE, trace := trace s1 @ [Sys_pipe None]\<rparr>, None)"
      with assms ncl len show ?thesis
        unfolding dr dw by (simp add: ipipe_descriptor_open_def opipe_descriptor_open_def)
    next
      fix x y
      assume p: "sys_pipe s1 =
           (s1\<lparr>fdtab := fdtab s1 @ [(x, Pipe_read (pipes s1)), (y, Pipe_write (pipes s1))],
              pipes := Suc (pipes s1), trace := trace s1 @ [Sys_pipe (Some (x, y))]\<rparr>, Some (x, y))"
        and xy: "x \<notin> fst ` set (fdtab s1)" "y \<notin> fst ` set (fdtab s1)" "x \<noteq> y" "0 \<le> x" "0 \<le> y"
      let ?t = "s1\<lparr>fdtab := fdtab s1 @ [(x, Pipe_read (pipes s1)), (y, Pipe_write (pipes s1))],
              pipes := Suc (pipes s1), trace := trace s1 @ [Sys_pipe (Some (x, y))]\<rparr>"
      let ?s2 = "set_fd (set_fd ?t r x) w y"
      have or: "descriptor_open s1 r = Inr ?s2"
        unfolding dr using assms ncl len p by (simp add: ipipe_descriptor_open_def hr)
      have ow: "descriptor_open s1 w = Inr ?s2"
        unfolding dw using assms ncl len p by (simp add: opipe_descriptor_open_def hw)
      have s2: "heap ?s2 = (heap s1)[r := (heap s1 ! r)\<lparr>fd := x\<rparr>, w := (heap s1 ! w)\<lparr>fd := y\<rparr>]"
        "fdtab ?s2 = fdtab s1 @ [(x, Pipe_read (pipes s1)), (y, Pipe_write (pipes s1))]"
        "trace ?s2 = trace s1 @ [Sys_pipe (Some (x, y))]"
        using ne by simp_all
      have fr: "fd (heap ?s2 ! r) = x" and fw: "fd (heap ?s2 ! w) = y"
        and tr: "dtype (heap ?s2 ! r) = Ipipe_descriptor"
        and tw: "dtype (heap ?s2 ! w) = Opipe_descriptor"
        using assms ne len by (simp_all add: hr hw)
      have none: "map_of (fdtab s1) x = None" "map_of (fdtab s1) y = None"
        using xy by (simp_all add: map_of_eq_None_iff)
      have m: "map_of (fdtab ?s2) x = Some (Pipe_read (pipes s1))"
        "map_of (fdtab ?s2) y = Some (Pipe_write (pipes s1))"
        using none xy(3) by (simp_all add: map_add_def)
      have ev: "new_events s1 ?s2 = [Sys_pipe (Some (x, y))]" by simp
      have re: "descriptor_open ?s2 r = Inr ?s2" "descriptor_open ?s2 w = Inr ?s2"
        using assms len xy fr fw tr tw
        by (simp_all add: descriptor_open_def ipipe_descriptor_open_def opipe_descriptor_open_def
            closable_iff s2(1))
      have m2: "map_of (fdtab ?s2) (fd (heap ?s2 ! r)) = Some (Pipe_read (pipes s1))"
        "map_of (fdtab ?s2) (fd (heap ?s2 ! w)) = Some (Pipe_write (pipes s1))"
        unfolding fr fw by (rule m)+
      have ex: "\<exists>s2. descriptor_open s1 r = Inr s2 \<and> descriptor_open s1 w = Inr s2 \<and>
              fd (heap s2 ! r) = x \<and> fd (heap s2 ! w) = y \<and> 0 \<le> x \<and> 0 \<le> y \<and>
              map_of (fdtab s2) (fd (heap s2 ! r)) = Some (Pipe_read (pipes s1)) \<and>
              map_of (fdtab s2) (fd (heap s2 ! w)) = Some (Pipe_write (pipes s1)) \<and>
              new_events s1 s2 = [Sys_pipe (Some (x, y))] \<and>
              descriptor_open s2 r = Inr s2 \<and> descriptor_open s2 w = Inr s2"
        apply (rule exI[of _ ?s2])
        apply (rule conjI, rule or)
        apply (rule conjI, rule ow)
        apply (rule conjI, rule fr)
        apply (rule conjI, rule fw)
        apply (rule conjI, rule xy(4))
        apply (rule conjI, rule xy(5))
        apply (rule conjI, rule m2(1))
        apply (rule conjI, rule m2(2))
        apply (rule conjI, rule ev)
        apply (rule conjI, rule re(1))
        apply (rule re(2))
        done
      have sp: "snd (sys_pipe s1) = Some (x, y)" unfolding p by simp
      show ?thesis
      proof (rule conjI)
        show "\<forall>x y. snd (sys_pipe s1) = Some (x, y) \<longrightarrow>
           (\<exists>s2. descriptor_open s1 r = Inr s2 \<and> descriptor_open s1 w = Inr s2 \<and>
              fd (heap s2 ! r) = x \<and> fd (heap s2 ! w) = y \<and> 0 \<le> x \<and> 0 \<le> y \<and>
              map_of (fdtab s2) (fd (heap s2 ! r)) = Some (Pipe_read (pipes s1)) \<and>
              map_of (fdtab s2) (fd (heap s2 ! w)) = Some (Pipe_write (pipes s1)) \<and>
              new_events s1 s2 = [Sys_pipe (Some (x, y))] \<and>
              descriptor_open s2 r = Inr s2 \<and> descriptor_open s2 w = Inr s2)"
        proof (intro allI impI)
          fix x' y' assume "snd (sys_pipe s1) = Some (x', y')"
          with sp have e: "x' = x" "y' = y" by simp_all
          show "\<exists>s2. descriptor_open s1 r = Inr s2 \<and> descriptor_open s1 w = Inr s2 \<and>
              fd (heap s2 ! r) = x' \<and> fd (heap s2 ! w) = y' \<and> 0 \<le> x' \<and> 0 \<le> y' \<and>
              map_of (fdtab s2) (fd (heap s2 ! r)) = Some (Pipe_read (pipes s1)) \<and>
              map_of (fdtab s2) (fd (heap s2 ! w)) = Some (Pipe_write (pipes s1)) \<and>
              new_events s1 s2 = [Sys_pipe (Some (x', y'))] \<and>
              descriptor_open s2 r = Inr s2 \<and> descriptor_open s2 w = Inr s2"
            unfolding e by (rule ex)
        qed
        show "snd (sys_pipe s1) = None \<longrightarrow>
           descriptor_open s1 r = Inl (os_error [''pipe''] EMFILE) \<and>
           descriptor_open s1 w = Inl (os_error [''pipe''] EMFILE)"
          unfolding sp by simp
      qed
    qed
  qed
  show "\<forall>s1. link s r w = Inr s1 \<and> \<not> closable (heap s ! r) \<and> \<not> closable (heap s ! w) \<longrightarrow>
        (\<forall>x y. snd (sys_pipe s1) = Some (x, y) \<longrightarrow>
           (\<exists>s2. descriptor_open s1 r = Inr s2 \<and> descriptor_open s1 w = Inr s2 \<and>
              fd (heap s2 ! r) = x \<and> fd (heap s2 ! w) = y \<and> 0 \<le> x \<and> 0 \<le> y \<and>
              map_of (fdtab s2) (fd (heap s2 ! r)) = Some (Pipe_read (pipes s1)) \<and>
              map_of (fdtab s2) (fd (heap s2 ! w)) = Some (Pipe_write (pipes s1)) \<and>
              new_events s1 s2 = [Sys_pipe (Some (x, y))] \<and>
              descriptor_open s2 r = Inr s2 \<and> descriptor_open s2 w = Inr s2)) \<and>
        (snd (sys_pipe s1) = None \<longrightarrow>
           descriptor_open s1 r = Inl (os_error [''pipe''] EMFILE) \<and>
           descriptor_open s1 w = Inl (os_error [''pipe''] EMFILE))"
    by (intro allI impI, erule main)
qed

theorem link_exclusive_and_open_joint_witness:
  "3 < length (heap example_unlinked) \<and> dtype (heap example_unlinked ! 3) = Ipipe_descriptor \<and>
   4 < length (heap example_unlinked) \<and> dtype (heap example_unlinked ! 4) = Opipe_descriptor \<and>
   linked_fd (heap example_unlinked ! 3) = None \<and> linked_fd (heap example_unlinked ! 4) = None \<and>
   \<not> closable (heap example_unlinked ! 3) \<and> \<not> closable (heap example_unlinked ! 4) \<and>
   (\<exists>s1 s2. link example_unlinked 3 4 = Inr s1 \<and> snd (sys_pipe s1) = Some (3, 4) \<and>
      descriptor_open s1 3 = Inr s2 \<and> descriptor_open s1 4 = Inr s2 \<and>
      fd (heap s2 ! 3) = 3 \<and> fd (heap s2 ! 4) = 4 \<and>
      map_of (fdtab s2) 3 = Some (Pipe_read (pipes s1)) \<and>
      map_of (fdtab s2) 4 = Some (Pipe_write (pipes s1)) \<and>
      new_events s1 s2 = [Sys_pipe (Some (3, 4))] \<and>
      descriptor_open s2 3 = Inr s2 \<and> descriptor_open s2 4 = Inr s2 \<and>
      (\<exists>msg. link s1 3 4 = Inl (usage_error msg)))"
proof -
  let ?U = example_unlinked
  have 1: "3 < length (heap ?U)" by code_simp
  have 2: "dtype (heap ?U ! 3) = Ipipe_descriptor" by code_simp
  have 3: "4 < length (heap ?U)" by code_simp
  have 4: "dtype (heap ?U ! 4) = Opipe_descriptor" by code_simp
  have 5: "\<not> closable (heap ?U ! 3)" "\<not> closable (heap ?U ! 4)" by code_simp+
  have 6: "linked_fd (heap ?U ! 3) = None" "linked_fd (heap ?U ! 4) = None" by code_simp+
  note th = link_exclusive_and_open_joint[OF 1 2 3 4]
  from th[THEN conjunct2, THEN conjunct1] 6
  obtain s1 where l: "link ?U 3 4 = Inr s1"
    and lk: "linked_fd (heap s1 ! 3) = Some 4" by blast
  have "map_sum id (\<lambda>s. snd (sys_pipe s)) (link ?U 3 4) = Inr (Some (3, 4))" by code_simp
  then have sp: "snd (sys_pipe s1) = Some (3, 4)" by (simp add: l)
  have "link ?U 3 4 = Inr s1 \<and> \<not> closable (heap ?U ! 3) \<and> \<not> closable (heap ?U ! 4)"
    using l 5 by simp
  from th[THEN conjunct2, THEN conjunct2, rule_format, OF this, THEN conjunct1, rule_format, OF sp]
  obtain s2 where o: "descriptor_open s1 3 = Inr s2" "descriptor_open s1 4 = Inr s2"
    and f: "fd (heap s2 ! 3) = 3" "fd (heap s2 ! 4) = 4"
    and m: "map_of (fdtab s2) (fd (heap s2 ! 3)) = Some (Pipe_read (pipes s1))"
      "map_of (fdtab s2) (fd (heap s2 ! 4)) = Some (Pipe_write (pipes s1))"
    and ev: "new_events s1 s2 = [Sys_pipe (Some (3, 4))]"
    and re: "descriptor_open s2 3 = Inr s2" "descriptor_open s2 4 = Inr s2"
    by (elim exE conjE)
  have len: "length (heap s1) = length (heap ?U)"
    and t: "dtype (heap s1 ! 3) = Ipipe_descriptor" "dtype (heap s1 ! 4) = Opipe_descriptor"
    using l 1 2 3 4 by (auto simp: link_def Let_def nth_upd split: if_splits)
  from link_exclusive_and_open_joint[of 3 s1 4, THEN conjunct1] len 1 3 t lk
  have u: "\<exists>msg. link s1 3 4 = Inl (usage_error msg)" by simp
  have m': "map_of (fdtab s2) 3 = Some (Pipe_read (pipes s1))"
    "map_of (fdtab s2) 4 = Some (Pipe_write (pipes s1))"
    using m f by simp_all
  show ?thesis
    by (intro conjI 1 2 3 4 5 6 exI[of _ s1] exI[of _ s2] l sp o f m' ev re u)
qed

subsection \<open>C7: one close action for a shared file descriptor\<close>

text \<open>
  C7: the \<^verbatim>\<open>close\<close> of the file-action builder adds a close action for the file
  descriptor of a descriptor object exactly when the object is closable and the file
  descriptor is not yet in \<^verbatim>\<open>closed_fds_\<close>. Both alias setters make stdout and stderr
  the same object. For a process whose stdout and stderr are the same object, the actions
  that \<^verbatim>\<open>execute()\<close> builds close no file descriptor twice, and when the shared object
  is closable they close its file descriptor exactly once and hold the dup of it onto
  stderr. These are the actions that posix\_spawnp is called with.
\<close>

theorem aliased_streams_closed_once_in_child:
  "actions (close action d) =
     (if closable d \<and> fd d \<notin> closed_fds action then actions action @ [Addclose (fd d)]
      else actions action) \<and>
   stderr_fd (err_to_out q) = stdout_fd (err_to_out q) \<and>
   stdout_fd (out_to_err q) = stderr_fd (out_to_err q) \<and>
   (\<forall>s3 action'. stderr_fd p = stdout_fd p \<and> file_actions_for s p = Inr (s3, action') \<longrightarrow>
      (\<forall>n. count_list (actions action') (Addclose n) \<le> 1) \<and>
      (closable (heap s3 ! stdout_fd p) \<longrightarrow>
         count_list (actions action') (Addclose (fd (heap s3 ! stdout_fd p))) = 1 \<and>
         Adddup2 (fd (heap s3 ! stdout_fd p)) standard_error \<in> set (actions action'))) \<and>
   (\<forall>s4 p4. spawn_child s p = Inr (s4, p4) \<longrightarrow>
      (\<exists>s3 action' argv n. file_actions_for s p = Inr (s3, action') \<and>
         trace s4 = trace s3 @ [Sys_posix_spawnp argv (actions action') 0 n]))"
proof (intro conjI)
  show "actions (close action d) =
     (if closable d \<and> fd d \<notin> closed_fds action then actions action @ [Addclose (fd d)]
      else actions action)"
    by (simp add: close_def)
  show "stderr_fd (err_to_out q) = stdout_fd (err_to_out q)" by (simp add: err_to_out_def)
  show "stdout_fd (out_to_err q) = stderr_fd (out_to_err q)" by (simp add: out_to_err_def)
  have main: "(\<forall>n. count_list (actions action') (Addclose n) \<le> 1) \<and>
      (closable (heap s3 ! stdout_fd p) \<longrightarrow>
         count_list (actions action') (Addclose (fd (heap s3 ! stdout_fd p))) = 1 \<and>
         Adddup2 (fd (heap s3 ! stdout_fd p)) standard_error \<in> set (actions action'))"
    if eq: "stderr_fd p = stdout_fd p" and fa: "file_actions_for s p = Inr (s3, action')"
    for s3 action'
  proof -
    from fa obtain s1 s2 action1 action2 action3 where
      1: "process_fds s new_posix_spawn_file_actions (stdin_fd p) standard_in = Inr (s1, action1)" and
      2: "process_fds s1 action1 (stdout_fd p) standard_out = Inr (s2, action2)" and
      3: "process_fds s2 action2 (stderr_fd p) standard_error = Inr (s3, action3)" and
      a: "action' = close (close (close action3 (heap s3 ! stdin_fd p)) (heap s3 ! stdout_fd p))
                (heap s3 ! stderr_fd p)"
      by (rule file_actions_for_cases)
    have a1: "action1 = dup new_posix_spawn_file_actions (heap s1 ! stdin_fd p) standard_in"
      and a2: "action2 = dup action1 (heap s2 ! stdout_fd p) standard_out"
      and a3: "action3 = dup action2 (heap s3 ! stdout_fd p) standard_error"
      using process_fds_props(4)[OF 1] process_fds_props(4)[OF 2] process_fds_props(4)[OF 3]
      by (simp_all add: eq)
    have c3: "closed_fds action3 = {}" and n3: "\<And>n. count_list (actions action3) (Addclose n) = 0"
      by (simp_all add: a1 a2 a3 dup_def new_posix_spawn_file_actions_def)
    have d3: "0 \<le> fd (heap s3 ! stdout_fd p) \<Longrightarrow>
        Adddup2 (fd (heap s3 ! stdout_fd p)) standard_error \<in> set (actions action3)"
      by (simp add: a3 dup_def)
    let ?i = "heap s3 ! stdin_fd p" and ?o = "heap s3 ! stdout_fd p"
    have a': "action' = close (close (close action3 ?i) ?o) ?o" by (simp add: a eq)
    have "\<forall>n. count_list (actions action') (Addclose n) \<le> 1"
      by (simp add: a' close_def c3 n3)
    moreover have "count_list (actions action') (Addclose (fd ?o)) = 1" if "closable ?o"
      using that by (simp add: a' close_def c3 n3)
    moreover have "Adddup2 (fd ?o) standard_error \<in> set (actions action')" if "closable ?o"
      using that d3 by (simp add: a' close_def closable_iff)
    ultimately show ?thesis by blast
  qed
  then show "\<forall>s3 action'. stderr_fd p = stdout_fd p \<and> file_actions_for s p = Inr (s3, action') \<longrightarrow>
      (\<forall>n. count_list (actions action') (Addclose n) \<le> 1) \<and>
      (closable (heap s3 ! stdout_fd p) \<longrightarrow>
         count_list (actions action') (Addclose (fd (heap s3 ! stdout_fd p))) = 1 \<and>
         Adddup2 (fd (heap s3 ! stdout_fd p)) standard_error \<in> set (actions action'))"
    by blast
  show "\<forall>s4 p4. spawn_child s p = Inr (s4, p4) \<longrightarrow>
      (\<exists>s3 action' argv n. file_actions_for s p = Inr (s3, action') \<and>
         trace s4 = trace s3 @ [Sys_posix_spawnp argv (actions action') 0 n])"
  proof (intro allI impI)
    fix s4 p4 assume "spawn_child s p = Inr (s4, p4)"
    then obtain s3 action' rc bin args waitstatus where
      "file_actions_for s p = Inr (s3, action')"
      "s4 = s3\<lparr>children := children s3 @ [(waitstatus, False)],
             trace := trace s3 @ [Sys_posix_spawnp (bin # args) (actions action') 0
                                    (int (length (children s3)) + 1)]\<rparr>"
      by (rule spawn_child_cases)
    then show "\<exists>s3 action' argv n. file_actions_for s p = Inr (s3, action') \<and>
         trace s4 = trace s3 @ [Sys_posix_spawnp argv (actions action') 0 n]"
      by auto
  qed
qed

theorem aliased_streams_closed_once_in_child_witness:
  "stderr_fd (snd example_aliased) = stdout_fd (snd example_aliased) \<and>
   (\<exists>s3 action' s4 p4.
      file_actions_for (fst example_aliased) (snd example_aliased) = Inr (s3, action') \<and>
      closable (heap s3 ! stdout_fd (snd example_aliased)) \<and>
      fd (heap s3 ! stdout_fd (snd example_aliased)) = 4 \<and>
      count_list (actions action') (Addclose 4) = 1 \<and>
      spawn_child (fst example_aliased) (snd example_aliased) = Inr (s4, p4) \<and>
      (\<exists>argv n. last (trace s4) = Sys_posix_spawnp argv (actions action') 0 n))"
proof -
  let ?s = "fst example_aliased" and ?p = "snd example_aliased"
  have eq: "stderr_fd ?p = stdout_fd ?p" by code_simp
  have "case spawn_child ?s ?p of Inl e \<Rightarrow> False | Inr r \<Rightarrow> True" by code_simp
  then obtain s4 p4 where sc: "spawn_child ?s ?p = Inr (s4, p4)"
    by (cases "spawn_child ?s ?p") auto
  from aliased_streams_closed_once_in_child[of _ _ _ ?p ?s] sc
  obtain s3 action' argv n where fa: "file_actions_for ?s ?p = Inr (s3, action')"
    and tr: "trace s4 = trace s3 @ [Sys_posix_spawnp argv (actions action') 0 n]"
    by blast
  have "map_sum id (\<lambda>(s3, action'). (closable (heap s3 ! stdout_fd ?p), fd (heap s3 ! stdout_fd ?p)))
          (file_actions_for ?s ?p) = Inr (True, 4)"
    by code_simp
  then have cl: "closable (heap s3 ! stdout_fd ?p)" and f: "fd (heap s3 ! stdout_fd ?p) = 4"
    by (simp_all add: fa)
  from aliased_streams_closed_once_in_child[of _ _ _ ?p ?s] eq fa cl
  have "count_list (actions action') (Addclose (fd (heap s3 ! stdout_fd ?p))) = 1"
    by blast
  then have "count_list (actions action') (Addclose 4) = 1" by (simp add: f)
  moreover have "last (trace s4) = Sys_posix_spawnp argv (actions action') 0 n" by (simp add: tr)
  ultimately show ?thesis using eq fa cl f sc by blast
qed

subsection \<open>C8: open() on an open descriptor\<close>

text \<open>
  C8 says that \<^verbatim>\<open>open()\<close> on a descriptor that is already open does nothing, for
  every variant. \<^verbatim>\<open>file_descriptor::open\<close> returns early when \<^verbatim>\<open>fd_ > 0\<close>, so a file
  descriptor object that holds file descriptor 0 is opened again. In a process whose
  stdin is closed, the first \<^verbatim>\<open>open()\<close> of an output file gets 0 and the object is
  closable; the second \<^verbatim>\<open>open()\<close> calls open(2) again, the object then holds 3, and
  file descriptor 0 stays open in the process.
\<close>

theorem file_reopened_when_fd_is_zero:
  "(case make_descriptor (example_world\<lparr>fdtab := tl (fdtab example_world)\<rparr>)
           (ofile_descriptor ''/tmp/out'' (O_CREAT OR O_TRUNC)) of
      (s1, a) \<Rightarrow>
        (case descriptor_open s1 a of
           Inl e \<Rightarrow> Inl e
         | Inr s2 \<Rightarrow>
             map_sum id (\<lambda>s3. (closable (heap s2 ! a), fd (heap s2 ! a), fd (heap s3 ! a),
                               new_events s2 s3, map fst (fdtab s3)))
               (descriptor_open s2 a))) =
   Inr (True, 0, 3, [Sys_open ''/tmp/out'' (O_WRONLY OR (O_CREAT OR O_TRUNC)) 3], [1, 2, 0, 3])"
  by code_simp

text \<open>
  For every other object the claim holds: \<^verbatim>\<open>open()\<close> on an object that is closable, and
  on a standard stream, returns the state as it is, unless the object is a file
  descriptor object that holds 0.
\<close>

lemma open_is_idempotent_but_for_fd_zero:
  assumes "a < length (heap s)"
    and "closable (heap s ! a) \<or> dtype (heap s ! a) = Descriptor"
    and "dtype (heap s ! a) \<in> {Ifile_descriptor, Ofile_descriptor} \<longrightarrow> fd (heap s ! a) \<noteq> 0"
  shows "descriptor_open s a = Inr s"
  using assms
  by (cases "dtype (heap s ! a)")
     (auto simp: descriptor_open_def file_descriptor_open_def opipe_descriptor_open_def
        ipipe_descriptor_open_def ivariable_descriptor_open_def closable_iff)

subsection \<open>C9: when wait() is valid\<close>

text \<open>
  C9 says that \<^verbatim>\<open>wait()\<close> is valid exactly when \<^verbatim>\<open>execute()\<close> has succeeded and
  \<^verbatim>\<open>wait()\<close> has not been called before. The only guard of \<^verbatim>\<open>wait()\<close> is the test
  of \<^verbatim>\<open>pid_\<close>, which \<^verbatim>\<open>wait()\<close> never resets. Before \<^verbatim>\<open>execute()\<close> the call is
  refused with a usage error; a second \<^verbatim>\<open>wait()\<close> after \<^verbatim>\<open>execute()\<close> is not
  refused: for the command \<^verbatim>\<open>true\<close> it returns 0 as the first one did.
\<close>

theorem repeated_wait_is_accepted:
  "map_sum id snd (wait example_world (new_posix_process ''true'')) =
     Inl (usage_error ''posix_process.wait() called before posix_process.execute()'') \<and>
   wait_twice example_world (new_posix_process ''true'') = Inr (0, 0)"
  by code_simp

text \<open>The same caller on a child that exits with 42 gets 42 and then 0.\<close>

lemma repeated_wait_returns_zero:
  "wait_twice example_world (new_posix_process ''exit42'') = Inr (42, 0)"
  by code_simp

text \<open>
  C9 as the code has it: \<^verbatim>\<open>wait()\<close> raises an error exactly when the process holds
  no pid, and the error is the usage error; a new process holds none. A \<^verbatim>\<open>wait()\<close>
  reaps (its waitpid succeeds) exactly when the process holds the pid of a child that has
  not been reaped: then it returns the exit status of that child, the child is reaped, and
  every other child is as before. On a pid that is not an unreaped child, \<^verbatim>\<open>wait()\<close>
  returns 0 and changes no child. A successful \<^verbatim>\<open>execute()\<close> leaves the process with
  the pid of a new unreaped child, whose exit status is the one of the command, and
  leaves every child that was unreaped as it was.
\<close>

theorem wait_raises_iff_no_pid:
  "((\<exists>e. wait s p = Inl e) \<longleftrightarrow> pid p = None) \<and>
   (pid p = None \<longrightarrow>
      wait s p = Inl (usage_error ''posix_process.wait() called before posix_process.execute()'')) \<and>
   pid (new_posix_process c) = None \<and>
   ((\<exists>s' status n ws. wait s p = Inr (s', status) \<and> new_events s s' = [Sys_waitpid n (Some ws)])
      \<longleftrightarrow> (\<exists>n. pid p = Some n \<and> unreaped s n)) \<and>
   (\<forall>n. pid p = Some n \<and> unreaped s n \<longrightarrow>
      (\<exists>s'. wait s p = Inr (s', WEXITSTATUS (fst (children s ! (nat n - 1)))) \<and>
         new_events s s' = [Sys_waitpid n (Some (fst (children s ! (nat n - 1))))] \<and>
         \<not> unreaped s' n \<and> (\<forall>m. m \<noteq> n \<longrightarrow> unreaped s' m = unreaped s m) \<and>
         map fst (children s') = map fst (children s))) \<and>
   (\<forall>n. pid p = Some n \<and> \<not> unreaped s n \<longrightarrow>
      (\<exists>s'. wait s p = Inr (s', 0) \<and> new_events s s' = [Sys_waitpid n None] \<and>
         children s' = children s)) \<and>
   (\<forall>s1 p1. execute s p = Inr (s1, p1) \<longrightarrow>
      (\<exists>n. pid p1 = Some n \<and> \<not> unreaped s n \<and> unreaped s1 n \<and>
         WEXITSTATUS (fst (children s1 ! (nat n - 1))) = exit_status_of s p \<and>
         (\<forall>m. unreaped s m \<longrightarrow>
            unreaped s1 m \<and> children s1 ! (nat m - 1) = children s ! (nat m - 1))))"
proof -
  have raise: "(\<exists>e. wait s p = Inl e) \<longleftrightarrow> pid p = None"
    by (cases "pid p") (auto simp: wait_def split: prod.splits)
  have usage: "pid p = None \<longrightarrow>
      wait s p = Inl (usage_error ''posix_process.wait() called before posix_process.execute()'')"
    by (simp add: wait_def)
  have fresh: "pid (new_posix_process c) = None" by (simp add: new_posix_process_def)
  have reap: "\<exists>s'. wait s p = Inr (s', WEXITSTATUS (fst (children s ! (nat n - 1)))) \<and>
         new_events s s' = [Sys_waitpid n (Some (fst (children s ! (nat n - 1))))] \<and>
         \<not> unreaped s' n \<and> (\<forall>m. m \<noteq> n \<longrightarrow> unreaped s' m = unreaped s m) \<and>
         map fst (children s') = map fst (children s)"
    if h: "pid p = Some n \<and> unreaped s n" for n
  proof -
    let ?k = "nat n - 1"
    let ?ws = "fst (children s ! ?k)"
    let ?s' = "s\<lparr>children := (children s)[?k := (?ws, True)],
                 trace := trace s @ [Sys_waitpid n (Some ?ws)]\<rparr>"
    from h have u: "1 \<le> n" "nat n \<le> length (children s)" "\<not> snd (children s ! ?k)"
      by (simp_all add: unreaped_def)
    then have k: "?k < length (children s)" by linarith
    have w: "wait s p = Inr (?s', WEXITSTATUS ?ws)"
      using h u by (simp add: wait_def sys_waitpid_def)
    have e: "new_events s ?s' = [Sys_waitpid n (Some ?ws)]" by simp
    have n': "\<not> unreaped ?s' n" using k by (simp add: unreaped_def)
    have oth: "unreaped ?s' m = unreaped s m" if "m \<noteq> n" for m
    proof (cases "1 \<le> m")
      case True
      with that u(1) have "nat m - 1 \<noteq> ?k" by linarith
      then show ?thesis by (simp add: unreaped_def)
    next
      case False
      then show ?thesis by (simp add: unreaped_def)
    qed
    have st: "map fst (children ?s') = map fst (children s)"
      by (auto simp: list_eq_iff_nth_eq nth_upd)
    show ?thesis
      apply (rule exI[of _ ?s'])
      apply (rule conjI, rule w)
      apply (rule conjI, rule e)
      apply (rule conjI, rule n')
      apply (rule conjI)
       apply (intro allI impI, erule oth)
      apply (rule st)
      done
  qed
  have none: "\<exists>s'. wait s p = Inr (s', 0) \<and> new_events s s' = [Sys_waitpid n None] \<and>
         children s' = children s"
    if h: "pid p = Some n \<and> \<not> unreaped s n" for n
  proof -
    let ?s' = "s\<lparr>errno := ECHILD, trace := trace s @ [Sys_waitpid n None]\<rparr>"
    from h have c: "\<not> (1 \<le> n \<and> nat n \<le> length (children s) \<and> \<not> snd (children s ! (nat n - 1)))"
      by (simp add: unreaped_def)
    have sw: "sys_waitpid s n = (?s', None)"
      unfolding sys_waitpid_def by (rule if_not_P[OF c])
    have w: "wait s p = Inr (?s', 0)"
      using h by (simp add: wait_def sw WEXITSTATUS_def)
    show ?thesis
      by (rule exI[of _ ?s']) (simp add: w)
  qed
  have iff: "(\<exists>s' status n ws. wait s p = Inr (s', status) \<and>
        new_events s s' = [Sys_waitpid n (Some ws)])
      \<longleftrightarrow> (\<exists>n. pid p = Some n \<and> unreaped s n)"
  proof
    assume "\<exists>s' status n ws. wait s p = Inr (s', status) \<and>
        new_events s s' = [Sys_waitpid n (Some ws)]"
    then obtain s' status m ws where
      w: "wait s p = Inr (s', status)" and e: "new_events s s' = [Sys_waitpid m (Some ws)]"
      by blast
    from w obtain n where pn: "pid p = Some n" by (cases "pid p") (simp_all add: wait_def)
    have "unreaped s n"
    proof (rule ccontr)
      assume "\<not> unreaped s n"
      with pn none[of n] obtain t where "wait s p = Inr (t, 0)" "new_events s t = [Sys_waitpid n None]"
        by blast
      with w e show False by simp
    qed
    with pn show "\<exists>n. pid p = Some n \<and> unreaped s n" by blast
  next
    assume "\<exists>n. pid p = Some n \<and> unreaped s n"
    then obtain n where "pid p = Some n \<and> unreaped s n" by blast
    from reap[OF this] show "\<exists>s' status n ws. wait s p = Inr (s', status) \<and>
        new_events s s' = [Sys_waitpid n (Some ws)]"
      by blast
  qed
  have exe: "\<exists>n. pid p1 = Some n \<and> \<not> unreaped s n \<and> unreaped s1 n \<and>
         WEXITSTATUS (fst (children s1 ! (nat n - 1))) = exit_status_of s p \<and>
         (\<forall>m. unreaped s m \<longrightarrow>
            unreaped s1 m \<and> children s1 ! (nat m - 1) = children s ! (nat m - 1))"
    if ex: "execute s p = Inr (s1, p1)" for s1 p1
  proof -
    from ex obtain rc bin args ws where
      we: "wordexp_results s (cmd p) = (rc, Some (bin # args))" and
      sr: "spawn_results s bin = (0, ws)" and
      ch: "children s1 = children s @ [(ws, False)]" and
      p1: "p1 = p\<lparr>pid := Some (int (length (children s)) + 1)\<rparr>"
      by (rule execute_props)
    let ?n = "int (length (children s)) + 1"
    have k: "nat ?n - 1 = length (children s)" "nat ?n = Suc (length (children s))" by simp_all
    have a: "pid p1 = Some ?n" by (simp add: p1)
    have b: "\<not> unreaped s ?n" unfolding unreaped_def k by simp
    have c: "unreaped s1 ?n" unfolding unreaped_def k by (simp add: ch)
    have d: "WEXITSTATUS (fst (children s1 ! (nat ?n - 1))) = exit_status_of s p"
      unfolding k by (simp add: ch exit_status_of_def wait_status_of_def argv_of_def we sr)
    have e: "unreaped s1 m \<and> children s1 ! (nat m - 1) = children s ! (nat m - 1)"
      if "unreaped s m" for m
    proof -
      from that have u: "1 \<le> m" "nat m \<le> length (children s)" "\<not> snd (children s ! (nat m - 1))"
        by (simp_all add: unreaped_def)
      then have lt: "nat m - 1 < length (children s)" by linarith
      then have "children s1 ! (nat m - 1) = children s ! (nat m - 1)"
        by (simp add: ch nth_append)
      with u show ?thesis by (simp add: unreaped_def ch)
    qed
    show ?thesis
      apply (rule exI[of _ ?n])
      apply (rule conjI, rule a)
      apply (rule conjI, rule b)
      apply (rule conjI, rule c)
      apply (rule conjI, rule d)
      apply (intro allI impI, erule e)
      done
  qed
  show ?thesis
    apply (rule conjI, rule raise)
    apply (rule conjI, rule usage)
    apply (rule conjI, rule fresh)
    apply (rule conjI, rule iff)
    apply (rule conjI)
     apply (intro allI impI, erule reap)
    apply (rule conjI)
     apply (intro allI impI, erule none)
    apply (intro allI impI, erule exe)
    done
qed

theorem wait_raises_iff_no_pid_witness:
  "pid (new_posix_process ''exit42'') = None \<and>
   wait example_world (new_posix_process ''exit42'') =
     Inl (usage_error ''posix_process.wait() called before posix_process.execute()'') \<and>
   (\<exists>s1 p1 n s2 s3. execute example_world (new_posix_process ''exit42'') = Inr (s1, p1) \<and>
      pid p1 = Some n \<and> unreaped s1 n \<and>
      wait s1 p1 = Inr (s2, 42) \<and> \<not> unreaped s2 n \<and> wait s2 p1 = Inr (s3, 0))"
proof -
  let ?p = "new_posix_process ''exit42''"
  note th = wait_raises_iff_no_pid[of example_world ?p "''exit42''"]
  have 1: "pid ?p = None" by (rule th[THEN conjunct2, THEN conjunct2, THEN conjunct1])
  have 2: "wait example_world ?p =
     Inl (usage_error ''posix_process.wait() called before posix_process.execute()'')"
    using th[THEN conjunct2, THEN conjunct1] 1 by simp
  have "case execute example_world ?p of Inl e \<Rightarrow> False | Inr r \<Rightarrow> True" by code_simp
  then obtain s1 p1 where ex: "execute example_world ?p = Inr (s1, p1)"
    by (cases "execute example_world ?p") auto
  have es: "exit_status_of example_world ?p = 42" by code_simp
  from th[THEN conjunct2, THEN conjunct2, THEN conjunct2, THEN conjunct2, THEN conjunct2,
      THEN conjunct2, rule_format, OF ex]
  obtain n where pn: "pid p1 = Some n" and u1: "unreaped s1 n"
    and st: "WEXITSTATUS (fst (children s1 ! (nat n - 1))) = exit_status_of example_world ?p"
    by (elim exE conjE)
  have h1: "pid p1 = Some n \<and> unreaped s1 n" using pn u1 by simp
  from wait_raises_iff_no_pid[of s1 p1 "''exit42''", THEN conjunct2, THEN conjunct2,
      THEN conjunct2, THEN conjunct2, THEN conjunct1, rule_format, OF h1]
  obtain s2 where w1: "wait s1 p1 = Inr (s2, WEXITSTATUS (fst (children s1 ! (nat n - 1))))"
    and u2: "\<not> unreaped s2 n"
    by (elim exE conjE)
  have w1': "wait s1 p1 = Inr (s2, 42)" using w1 st es by simp
  have h2: "pid p1 = Some n \<and> \<not> unreaped s2 n" using pn u2 by simp
  from wait_raises_iff_no_pid[of s2 p1 "''exit42''", THEN conjunct2, THEN conjunct2,
      THEN conjunct2, THEN conjunct2, THEN conjunct2, THEN conjunct1, rule_format, OF h2]
  obtain s3 where w2: "wait s2 p1 = Inr (s3, 0)" by (elim exE conjE)
  show ?thesis
    by (intro conjI 1 2 exI[of _ s1] exI[of _ p1] exI[of _ n] exI[of _ s2] exI[of _ s3]
        ex pn u1 w1' u2 w2)
qed

subsection \<open>C10: open() of a pipe end needs the partner\<close>

text \<open>
  C10: \<^verbatim>\<open>open()\<close> on a pipe end that is not open stores the other file descriptor of
  the new pipe through the partner pointer without a null check. For an object that is
  not open, in \<^verbatim>\<open>opipe_descriptor::open\<close> and in \<^verbatim>\<open>ipipe_descriptor::open\<close> alike:
  with a partner object, when pipe creation succeeds, \<^verbatim>\<open>open()\<close> returns, the write
  end holds the write file descriptor of the new pipe and the read end its read file
  descriptor, one of the two stored in the object and the other through the partner
  pointer, no other object is touched, and the one system call made is that pipe
  creation; with a partner the only failure is the OS error of pipe creation; without a
  partner, once the pipe has been created, the behaviour is undefined. Every pair that
  \<^verbatim>\<open>create_pipe\<close> returns is linked, and the two buffer descriptors are constructed
  with a partner.
\<close>

theorem pipe_open_defined_iff_linked:
  assumes "a < length (heap s)" and "\<not> closable (heap s ! a)"
  shows
    "(\<forall>l r w. linked_fd (heap s ! a) = Some l \<and> l < length (heap s) \<and>
          snd (sys_pipe s) = Some (r, w) \<longrightarrow>
        (\<exists>s2. opipe_descriptor_open s a = Inr s2 \<and>
           fd (heap s2 ! a) = w \<and> (l \<noteq> a \<longrightarrow> fd (heap s2 ! l) = r) \<and>
           (\<forall>b. b \<noteq> a \<and> b \<noteq> l \<longrightarrow> heap s2 ! b = heap s ! b) \<and>
           fdtab s2 = fdtab s @ [(r, Pipe_read (pipes s)), (w, Pipe_write (pipes s))] \<and>
           new_events s s2 = [Sys_pipe (Some (r, w))]) \<and>
        (\<exists>s2. ipipe_descriptor_open s a = Inr s2 \<and>
           fd (heap s2 ! l) = w \<and> (l \<noteq> a \<longrightarrow> fd (heap s2 ! a) = r) \<and>
           (\<forall>b. b \<noteq> a \<and> b \<noteq> l \<longrightarrow> heap s2 ! b = heap s ! b) \<and>
           fdtab s2 = fdtab s @ [(r, Pipe_read (pipes s)), (w, Pipe_write (pipes s))] \<and>
           new_events s s2 = [Sys_pipe (Some (r, w))])) \<and>
     (has_partner s a \<longrightarrow>
        (\<forall>e. opipe_descriptor_open s a = Inl e \<or> ipipe_descriptor_open s a = Inl e \<longrightarrow>
           snd (sys_pipe s) = None \<and> e = os_error [''pipe''] EMFILE)) \<and>
     (\<not> has_partner s a \<and> snd (sys_pipe s) \<noteq> None \<longrightarrow>
        opipe_descriptor_open s a = Inl undefined_behaviour \<and>
        ipipe_descriptor_open s a = Inl undefined_behaviour) \<and>
     (\<forall>s' r w. create_pipe s = Inr (s', r, w) \<longrightarrow> has_partner s' r \<and> has_partner s' w) \<and>
     (\<forall>s' b v. make_ovariable_descriptor s v = (s', b) \<longrightarrow> has_partner s' b) \<and>
     (\<forall>s' b inp. make_ivariable_descriptor s inp = (s', b) \<longrightarrow> has_partner s' b)"
proof (intro conjI)
  show "\<forall>l r w. linked_fd (heap s ! a) = Some l \<and> l < length (heap s) \<and>
          snd (sys_pipe s) = Some (r, w) \<longrightarrow>
        (\<exists>s2. opipe_descriptor_open s a = Inr s2 \<and>
           fd (heap s2 ! a) = w \<and> (l \<noteq> a \<longrightarrow> fd (heap s2 ! l) = r) \<and>
           (\<forall>b. b \<noteq> a \<and> b \<noteq> l \<longrightarrow> heap s2 ! b = heap s ! b) \<and>
           fdtab s2 = fdtab s @ [(r, Pipe_read (pipes s)), (w, Pipe_write (pipes s))] \<and>
           new_events s s2 = [Sys_pipe (Some (r, w))]) \<and>
        (\<exists>s2. ipipe_descriptor_open s a = Inr s2 \<and>
           fd (heap s2 ! l) = w \<and> (l \<noteq> a \<longrightarrow> fd (heap s2 ! a) = r) \<and>
           (\<forall>b. b \<noteq> a \<and> b \<noteq> l \<longrightarrow> heap s2 ! b = heap s ! b) \<and>
           fdtab s2 = fdtab s @ [(r, Pipe_read (pipes s)), (w, Pipe_write (pipes s))] \<and>
           new_events s s2 = [Sys_pipe (Some (r, w))])"
  proof (intro allI impI)
    fix l r w
    assume h: "linked_fd (heap s ! a) = Some l \<and> l < length (heap s) \<and>
          snd (sys_pipe s) = Some (r, w)"
    let ?t = "s\<lparr>fdtab := fdtab s @ [(r, Pipe_read (pipes s)), (w, Pipe_write (pipes s))],
            pipes := Suc (pipes s), trace := trace s @ [Sys_pipe (Some (r, w))]\<rparr>"
    have p: "sys_pipe s = (?t, Some (r, w))"
      using h by (rule_tac sys_pipe_cases[of s]) auto
    have o: "opipe_descriptor_open s a = Inr (set_fd (set_fd ?t l r) a w)"
      using assms h p by (simp add: opipe_descriptor_open_def)
    have i: "ipipe_descriptor_open s a = Inr (set_fd (set_fd ?t a r) l w)"
      using assms h p by (simp add: ipipe_descriptor_open_def)
    have "fd (heap (set_fd (set_fd ?t l r) a w) ! a) = w"
      "l \<noteq> a \<longrightarrow> fd (heap (set_fd (set_fd ?t l r) a w) ! l) = r"
      "\<forall>b. b \<noteq> a \<and> b \<noteq> l \<longrightarrow> heap (set_fd (set_fd ?t l r) a w) ! b = heap s ! b"
      "fdtab (set_fd (set_fd ?t l r) a w) =
         fdtab s @ [(r, Pipe_read (pipes s)), (w, Pipe_write (pipes s))]"
      "new_events s (set_fd (set_fd ?t l r) a w) = [Sys_pipe (Some (r, w))]"
      using assms(1) h by (simp_all add: nth_upd)
    moreover have "fd (heap (set_fd (set_fd ?t a r) l w) ! l) = w"
      "l \<noteq> a \<longrightarrow> fd (heap (set_fd (set_fd ?t a r) l w) ! a) = r"
      "\<forall>b. b \<noteq> a \<and> b \<noteq> l \<longrightarrow> heap (set_fd (set_fd ?t a r) l w) ! b = heap s ! b"
      "fdtab (set_fd (set_fd ?t a r) l w) =
         fdtab s @ [(r, Pipe_read (pipes s)), (w, Pipe_write (pipes s))]"
      "new_events s (set_fd (set_fd ?t a r) l w) = [Sys_pipe (Some (r, w))]"
      using assms(1) h by (simp_all add: nth_upd)
    ultimately show "(\<exists>s2. opipe_descriptor_open s a = Inr s2 \<and>
           fd (heap s2 ! a) = w \<and> (l \<noteq> a \<longrightarrow> fd (heap s2 ! l) = r) \<and>
           (\<forall>b. b \<noteq> a \<and> b \<noteq> l \<longrightarrow> heap s2 ! b = heap s ! b) \<and>
           fdtab s2 = fdtab s @ [(r, Pipe_read (pipes s)), (w, Pipe_write (pipes s))] \<and>
           new_events s s2 = [Sys_pipe (Some (r, w))]) \<and>
        (\<exists>s2. ipipe_descriptor_open s a = Inr s2 \<and>
           fd (heap s2 ! l) = w \<and> (l \<noteq> a \<longrightarrow> fd (heap s2 ! a) = r) \<and>
           (\<forall>b. b \<noteq> a \<and> b \<noteq> l \<longrightarrow> heap s2 ! b = heap s ! b) \<and>
           fdtab s2 = fdtab s @ [(r, Pipe_read (pipes s)), (w, Pipe_write (pipes s))] \<and>
           new_events s s2 = [Sys_pipe (Some (r, w))])"
      unfolding o i by blast
  qed
  show "has_partner s a \<longrightarrow>
        (\<forall>e. opipe_descriptor_open s a = Inl e \<or> ipipe_descriptor_open s a = Inl e \<longrightarrow>
           snd (sys_pipe s) = None \<and> e = os_error [''pipe''] EMFILE)"
    using assms
    by (rule_tac sys_pipe_cases[of s])
       (auto simp: opipe_descriptor_open_def ipipe_descriptor_open_def has_partner_def
          split: option.splits)
  show "\<not> has_partner s a \<and> snd (sys_pipe s) \<noteq> None \<longrightarrow>
        opipe_descriptor_open s a = Inl undefined_behaviour \<and>
        ipipe_descriptor_open s a = Inl undefined_behaviour"
    using assms
    by (rule_tac sys_pipe_cases[of s])
       (auto simp: opipe_descriptor_open_def ipipe_descriptor_open_def has_partner_def
          split: option.splits)
  show "\<forall>s' r w. create_pipe s = Inr (s', r, w) \<longrightarrow> has_partner s' r \<and> has_partner s' w"
    by (auto simp: create_pipe_def make_descriptor_def link_def has_partner_def Let_def
        ipipe_descriptor_def opipe_descriptor_def new_descriptor_def nth_append
        split: if_splits)
  show "\<forall>s' b v. make_ovariable_descriptor s v = (s', b) \<longrightarrow> has_partner s' b"
    by (auto simp: make_ovariable_descriptor_def make_descriptor_def has_partner_def nth_append)
  show "\<forall>s' b inp. make_ivariable_descriptor s inp = (s', b) \<longrightarrow> has_partner s' b"
    by (auto simp: make_ivariable_descriptor_def make_descriptor_def has_partner_def nth_append)
qed

theorem pipe_open_defined_iff_linked_witness:
  "4 < length (heap (fst example_piped)) \<and> \<not> closable (heap (fst example_piped) ! 4) \<and>
   3 < length (heap (fst example_piped)) \<and> \<not> closable (heap (fst example_piped) ! 3) \<and>
   linked_fd (heap (fst example_piped) ! 4) = Some 3 \<and>
   linked_fd (heap (fst example_piped) ! 3) = Some 4 \<and>
   has_partner (fst example_piped) 4 \<and> snd (sys_pipe (fst example_piped)) = Some (3, 4) \<and>
   (\<exists>s2. opipe_descriptor_open (fst example_piped) 4 = Inr s2 \<and>
      fd (heap s2 ! 4) = 4 \<and> fd (heap s2 ! 3) = 3 \<and> new_events (fst example_piped) s2 = [Sys_pipe (Some (3, 4))]) \<and>
   (\<exists>s2. ipipe_descriptor_open (fst example_piped) 3 = Inr s2 \<and>
      fd (heap s2 ! 4) = 4 \<and> fd (heap s2 ! 3) = 3 \<and> new_events (fst example_piped) s2 = [Sys_pipe (Some (3, 4))]) \<and>
   (\<forall>e. opipe_descriptor_open (fst example_piped) 4 \<noteq> Inl e) \<and>
   4 < length (heap example_unlinked) \<and> \<not> closable (heap example_unlinked ! 4) \<and>
   \<not> has_partner example_unlinked 4 \<and> snd (sys_pipe example_unlinked) \<noteq> None \<and>
   opipe_descriptor_open example_unlinked 4 = Inl undefined_behaviour"
proof -
  let ?W = "fst example_piped"
  have 1: "4 < length (heap ?W)" by code_simp
  have 2: "\<not> closable (heap ?W ! 4)" by code_simp
  have r1: "3 < length (heap ?W)" by code_simp
  have r2: "\<not> closable (heap ?W ! 3)" by code_simp
  have l4: "linked_fd (heap ?W ! 4) = Some 3" by code_simp
  have l3: "linked_fd (heap ?W ! 3) = Some 4" by code_simp
  have 3: "has_partner ?W 4" by code_simp
  have 4: "snd (sys_pipe ?W) = Some (3, 4)" by code_simp
  have 5: "4 < length (heap example_unlinked)" by code_simp
  have 6: "\<not> closable (heap example_unlinked ! 4)" by code_simp
  have 7: "\<not> has_partner example_unlinked 4" by code_simp
  have 8: "snd (sys_pipe example_unlinked) \<noteq> None" by code_simp
  have o: "\<exists>s2. opipe_descriptor_open ?W 4 = Inr s2 \<and>
      fd (heap s2 ! 4) = 4 \<and> fd (heap s2 ! 3) = 3 \<and> new_events ?W s2 = [Sys_pipe (Some (3, 4))]"
    using pipe_open_defined_iff_linked[OF 1 2, THEN conjunct1, rule_format, of 3 3 4] l4 r1 4
    by auto
  have i: "\<exists>s2. ipipe_descriptor_open ?W 3 = Inr s2 \<and>
      fd (heap s2 ! 4) = 4 \<and> fd (heap s2 ! 3) = 3 \<and> new_events ?W s2 = [Sys_pipe (Some (3, 4))]"
    using pipe_open_defined_iff_linked[OF r1 r2, THEN conjunct1, rule_format, of 4 3 4] l3 1 4
    by auto
  have e: "\<forall>e. opipe_descriptor_open ?W 4 \<noteq> Inl e"
    using pipe_open_defined_iff_linked[OF 1 2, THEN conjunct2, THEN conjunct1] 3 4 by auto
  have u: "opipe_descriptor_open example_unlinked 4 = Inl undefined_behaviour"
    using pipe_open_defined_iff_linked[OF 5 6, THEN conjunct2, THEN conjunct2, THEN conjunct1] 7 8
    by simp
  show ?thesis by (intro conjI 1 2 r1 r2 l4 l3 3 4 o i e 5 6 7 8 u)
qed

end
